theory Spec2Isabelle
  imports Complex_Main "HOL-Library.AList" "HOL-Library.Sublist" "HOL-Library.Multiset"
    "HOL-Library.Word" "HOL-Library.Product_Lexorder"
begin

section \<open>The MLX embedding and reranking server: resource lifecycle managers\<close>

text \<open>
  A shallow embedding of \<^verbatim>\<open>src/mlx-server/server.py\<close>: the classes
  \<^verbatim>\<open>ModelManager\<close> and \<^verbatim>\<open>RerankerManager\<close>.

  Conventions of the embedding.
  \<^item> A Python \<^verbatim>\<open>dict\<close> whose iteration order or length the code reads is an association
    list in insertion order (\<open>AList.update\<close> overwrites in place or appends, as dict
    assignment does; \<open>AList.delete\<close> is \<^verbatim>\<open>del\<close>); the other dicts are maps.
  \<^item> Every \<^verbatim>\<open>raise\<close> is a value of type \<open>error\<close>; a method returns its result (or the
    error) together with the updated manager.
  \<^item> The MLX collaborator (\<^verbatim>\<open>mlx_lm.load\<close>, tokenizer, forward pass) and the wall clock
    \<^verbatim>\<open>time.time()\<close> are parameters, collected in the record \<open>engine\<close>. Each of them
    gets the number of its earlier invocations as an argument (for \<open>load\<close>: of the
    earlier loads of that model), so that a second call may answer differently from the
    first; the manager counts the invocations.
  \<^item> A timestamp is a finite Python float and is represented by the real number it
    denotes. Floating-point arithmetic rounds, so it is not computed in the model: the
    subtractions of the code are parameters of the engine as well. Comparisons of floats
    with floats or integers are exact in Python and are the comparisons of the reals.
  \<^item> A Python \<^verbatim>\<open>str\<close> is represented by its UTF-8 bytes.
\<close>

subsection \<open>Errors, status, handles\<close>

datatype error =
    UnknownModel string          \<comment> \<open>\<^verbatim>\<open>ValueError("Unknown model: ...")\<close> of \<^verbatim>\<open>_resolve_model_name\<close>\<close>
  | InvalidArchitecture          \<comment> \<open>\<^verbatim>\<open>ValueError("Invalid model architecture ...")\<close>\<close>
  | EngineFailure string         \<comment> \<open>an exception raised inside the MLX collaborator, of any class\<close>
  | ModelLoadingFailed error     \<comment> \<open>\<^verbatim>\<open>RuntimeError("Model loading failed: {e}") from e\<close>\<close>
  | ModelNotReady string         \<comment> \<open>\<^verbatim>\<open>RuntimeError("Model ... not ready ...")\<close>\<close>
  | KeyError string              \<comment> \<open>a dict subscript on a missing key\<close>
  | InhomogeneousShape           \<comment> \<open>\<^verbatim>\<open>ValueError\<close> of \<^verbatim>\<open>np.array\<close> on rows of different lengths\<close>
  | OverflowError                \<comment> \<open>an integer too large to convert to a float\<close>

datatype ModelStatus = LOADING | READY | ERROR | UNLOADED

text \<open>The pair \<^verbatim>\<open>(model, tokenizer)\<close> returned by \<^verbatim>\<open>mlx_lm.load\<close>. The only thing the
  manager inspects is \<^verbatim>\<open>hasattr(model, 'model')\<close>.\<close>

datatype handle = Handle (handle_id: nat) (has_model_attr: bool)

type_synonym embedding = "32 word list"

record engine =
  load :: "string \<Rightarrow> nat \<Rightarrow> string + handle"
  encode :: "handle \<Rightarrow> string \<Rightarrow> string + nat list"
  forward_pass :: "handle \<Rightarrow> nat list \<Rightarrow> bool \<Rightarrow> nat \<Rightarrow> string + embedding"
  clock :: "nat \<Rightarrow> real"
  fsub :: "real \<Rightarrow> real \<Rightarrow> real"
  int_minus_float :: "int \<Rightarrow> real \<Rightarrow> real option"

record ServerConfig =
  model_name :: string
  max_batch_size :: int
  max_text_length :: nat
  models_dir :: string
  lazy_load :: bool
  idle_ttl_seconds :: int

subsection \<open>The catalog of embedding models and its aliases\<close>

record model_info =
  aliases :: "string list"
  embedding_dim :: nat
  description :: string

definition AVAILABLE_MODELS :: "(string \<times> model_info) list" where
  "AVAILABLE_MODELS =
    [(''mlx-community/Qwen3-Embedding-0.6B-4bit-DWQ'',
        \<lparr>aliases = [''small'', ''0.6b'', ''default''], embedding_dim = 1024,
         description = ''Small 0.6B parameter model, fast and efficient (default)''\<rparr>),
     (''mlx-community/Qwen3-Embedding-4B-4bit-DWQ'',
        \<lparr>aliases = [''medium'', ''4b''], embedding_dim = 2560,
         description = ''Medium 4B parameter model, balanced performance''\<rparr>),
     (''mlx-community/Qwen3-Embedding-8B-4bit-DWQ'',
        \<lparr>aliases = [''large'', ''8b''], embedding_dim = 4096,
         description = ''Large 8B parameter model, higher quality (requires 32GB+ RAM)''\<rparr>),
     (''mlx-community/embeddinggemma-300m-4bit'',
        \<lparr>aliases = [''embeddinggemma'', ''gemma'', ''gemma-300m''], embedding_dim = 768,
         description = ''Google EmbeddingGemma 308M, 50% smaller than Qwen3-0.6B, MRL dimension support (768/512/256/128)''\<rparr>)]"

definition DEFAULT_MODEL :: string where
  "DEFAULT_MODEL = ''mlx-community/Qwen3-Embedding-0.6B-4bit-DWQ''"

definition lower_char :: "char \<Rightarrow> char" where
  "lower_char c =
     (case map_of (zip ''ABCDEFGHIJKLMNOPQRSTUVWXYZ'' ''abcdefghijklmnopqrstuvwxyz'') c of
        Some l \<Rightarrow> l
      | None \<Rightarrow> c)"

text \<open>\<^verbatim>\<open>str.lower\<close> on UTF-8 bytes. The code uses it only to look an identifier up in a
  table whose keys are ASCII strings, so what matters is when the lowercase form is ASCII:
  the letters \<^verbatim>\<open>A\<close> to \<^verbatim>\<open>Z\<close> become \<^verbatim>\<open>a\<close> to \<^verbatim>\<open>z\<close>, and the Kelvin sign U+212A (the
  bytes E2 84 AA), the only other code point with an ASCII lowercase form, becomes
  \<^verbatim>\<open>k\<close>. Every other code point keeps its bytes here; in Python its lowercase form has
  a byte outside ASCII as well, so neither form is a key of such a table.\<close>

fun lower :: "string \<Rightarrow> string" where
  "lower (c1 # c2 # c3 # rest) =
     (if c1 = CHR 0xE2 \<and> c2 = CHR 0x84 \<and> c3 = CHR 0xAA then CHR ''k'' # lower rest
      else lower_char c1 # lower (c2 # c3 # rest))"
| "lower (c # rest) = lower_char c # lower rest"
| "lower [] = []"

text \<open>The module-level loop
  \<^verbatim>\<open>for model_name, config in CATALOG.items(): for alias in config.get("alias", []):
  ALIASES[alias.lower()] = model_name\<close>.\<close>

definition build_aliases :: "(string \<times> string list) list \<Rightarrow> (string \<times> string) list" where
  "build_aliases catalog =
     fold (\<lambda>(name, aliases) acc. fold (\<lambda>a acc'. AList.update (lower a) name acc') aliases acc)
       catalog []"

definition MODEL_ALIASES :: "(string \<times> string) list" where
  "MODEL_ALIASES = build_aliases (map (\<lambda>(name, info). (name, aliases info)) AVAILABLE_MODELS)"

subsection \<open>The state of a \<^verbatim>\<open>ModelManager\<close>\<close>

record manager =
  models :: "(string \<times> handle) list"
  model_status :: "string \<rightharpoonup> ModelStatus"
  model_load_times :: "string \<rightharpoonup> real"
  locks :: "string set"
  embedding_cache :: "(string \<times> embedding) list"
  last_used :: "(string \<times> real) list"
  load_calls :: "string \<Rightarrow> nat"
  forward_calls :: nat
  clock_reads :: nat

definition max_loaded_models :: nat where
  "max_loaded_models = 2"

definition init_manager :: manager where
  "init_manager =
     \<lparr>models = [], model_status = Map.empty, model_load_times = Map.empty, locks = {},
      embedding_cache = [], last_used = [], load_calls = (\<lambda>name. 0), forward_calls = 0,
      clock_reads = 0\<rparr>"

definition time_time :: "engine \<Rightarrow> manager \<Rightarrow> real \<times> manager" where
  "time_time eng s = (clock eng (clock_reads s), s\<lparr>clock_reads := Suc (clock_reads s)\<rparr>)"

definition update_last_used :: "engine \<Rightarrow> string \<Rightarrow> manager \<Rightarrow> manager" where
  "update_last_used eng name s =
     (let (now, s1) = time_time eng s
      in s1\<lparr>last_used := AList.update name now (last_used s1)\<rparr>)"

definition resolve_model_name :: "ServerConfig \<Rightarrow> string option \<Rightarrow> error + string" where
  "resolve_model_name cfg model_identifier =
     (case model_identifier of
        None \<Rightarrow> Inr (model_name cfg)
      | Some ident \<Rightarrow>
          if ident = [] then Inr (model_name cfg)
          else (case map_of MODEL_ALIASES (lower ident) of
                  Some name \<Rightarrow> Inr name
                | None \<Rightarrow>
                    if map_of AVAILABLE_MODELS ident \<noteq> None then Inr ident
                    else Inl (UnknownModel ident)))"

subsection \<open>Unloading and capacity eviction\<close>

definition is_resident :: "manager \<Rightarrow> string \<Rightarrow> bool" where
  "is_resident s name = (map_of (models s) name \<noteq> None)"

definition unload_model :: "string \<Rightarrow> manager \<Rightarrow> manager" where
  "unload_model name s =
     (if \<not> is_resident s name then s
      else
        let s1 = s\<lparr>models := AList.delete name (models s),
                   model_status := (model_status s)(name \<mapsto> UNLOADED)\<rparr>;
            cache_keys_to_remove =
              filter (\<lambda>k. prefix (name @ '':'') k) (map fst (embedding_cache s1))
        in s1\<lparr>embedding_cache := fold AList.delete cache_keys_to_remove (embedding_cache s1)\<rparr>)"

definition manage_memory :: "string \<Rightarrow> manager \<Rightarrow> manager" where
  "manage_memory new_model s =
     (if length (models s) \<ge> max_loaded_models then
        (case filter (\<lambda>m. m \<noteq> new_model) (map fst (models s)) of
           [] \<Rightarrow> s
         | evict_model # _ \<Rightarrow> unload_model evict_model s)
      else s)"

subsection \<open>Loading\<close>

definition truncate_tokens :: "nat \<Rightarrow> nat list \<Rightarrow> nat list" where
  "truncate_tokens n tokens = (if length tokens > n then take n tokens else tokens)"

text \<open>\<^verbatim>\<open>_warmup\<close>: one forward pass for each of the two test texts; the first exception ends
  the warm-up and is swallowed.\<close>

fun warmup_texts :: "engine \<Rightarrow> ServerConfig \<Rightarrow> handle \<Rightarrow> string list \<Rightarrow> manager \<Rightarrow> manager" where
  "warmup_texts eng cfg h [] s = s"
| "warmup_texts eng cfg h (text # rest) s =
     (case encode eng h text of
        Inl e \<Rightarrow> s
      | Inr tokens \<Rightarrow>
          let r = forward_pass eng h (truncate_tokens (max_text_length cfg) tokens) False
                    (forward_calls s);
              s1 = s\<lparr>forward_calls := Suc (forward_calls s)\<rparr>
          in (case r of Inl e \<Rightarrow> s1 | Inr pooled \<Rightarrow> warmup_texts eng cfg h rest s1))"

definition warmup :: "engine \<Rightarrow> ServerConfig \<Rightarrow> string \<Rightarrow> manager \<Rightarrow> manager" where
  "warmup eng cfg name s =
     (case map_of (models s) name of
        None \<Rightarrow> s
      | Some h \<Rightarrow> warmup_texts eng cfg h [''warmup'', ''test''] s)"

text \<open>The body of \<^verbatim>\<open>load_model\<close> is cut at its \<^verbatim>\<open>await\<close>s into segments; between two
  \<^verbatim>\<open>await\<close>s a coroutine runs without interruption.\<close>

definition ready_now :: "manager \<Rightarrow> string \<Rightarrow> bool" where
  "ready_now s name = (is_resident s name \<and> model_status s name = Some READY)"

text \<open>\<^verbatim>\<open>async with self._global_lock\<close>: the per-key lock is created if absent.\<close>

definition create_lock :: "string \<Rightarrow> manager \<Rightarrow> manager" where
  "create_lock name s = s\<lparr>locks := insert name (locks s)\<rparr>"

text \<open>Inside the per-key lock, up to \<^verbatim>\<open>await self._manage_memory\<close>: the status becomes
  LOADING and the start time is read.\<close>

definition begin_loading :: "engine \<Rightarrow> string \<Rightarrow> manager \<Rightarrow> real \<times> manager" where
  "begin_loading eng name s =
     time_time eng (s\<lparr>model_status := (model_status s)(name \<mapsto> LOADING)\<rparr>)"

text \<open>The \<^verbatim>\<open>except Exception\<close> branch.\<close>

definition load_failed :: "string \<Rightarrow> error \<Rightarrow> manager \<Rightarrow> (error + string) \<times> manager" where
  "load_failed name e s =
     (Inl (ModelLoadingFailed e), s\<lparr>model_status := (model_status s)(name \<mapsto> ERROR)\<rparr>)"

text \<open>\<^verbatim>\<open>load(model_name)\<close>, the architecture check and the store of the handle. The result
  is \<open>Inl\<close> the outcome of the failed call, or \<open>Inr\<close> the state at \<^verbatim>\<open>await self._warmup\<close>.\<close>

definition do_load :: "engine \<Rightarrow> string \<Rightarrow> manager \<Rightarrow> ((error + string) \<times> manager) + manager" where
  "do_load eng name s =
     (let r = load eng name (load_calls s name);
          s1 = s\<lparr>load_calls := (load_calls s)(name := Suc (load_calls s name))\<rparr>
      in (case r of
            Inl e \<Rightarrow> Inl (load_failed name (EngineFailure e) s1)
          | Inr h \<Rightarrow>
              if \<not> has_model_attr h then Inl (load_failed name InvalidArchitecture s1)
              else Inr (s1\<lparr>models := AList.update name h (models s1)\<rparr>)))"

text \<open>From \<^verbatim>\<open>_warmup\<close> to \<^verbatim>\<open>return model_name\<close>.\<close>

definition finish_loading :: "engine \<Rightarrow> ServerConfig \<Rightarrow> string \<Rightarrow> real \<Rightarrow> manager \<Rightarrow> manager" where
  "finish_loading eng cfg name start_time s =
     (let s1 = warmup eng cfg name s;
          (t, s2) = time_time eng s1;
          s3 = s2\<lparr>model_load_times := (model_load_times s2)(name \<mapsto> fsub eng t start_time),
                  model_status := (model_status s2)(name \<mapsto> READY)\<rparr>
      in update_last_used eng name s3)"

text \<open>\<^verbatim>\<open>load_model\<close> of a caller that is not interrupted.\<close>

definition load_model :: "engine \<Rightarrow> ServerConfig \<Rightarrow> string option \<Rightarrow> manager \<Rightarrow> (error + string) \<times> manager" where
  "load_model eng cfg model_identifier s =
     (case resolve_model_name cfg model_identifier of
        Inl e \<Rightarrow> (Inl e, s)
      | Inr name \<Rightarrow>
          if ready_now s name then (Inr name, s)
          else
            let s1 = create_lock name s in
            if ready_now s1 name then (Inr name, s1)
            else
              let (start_time, s2) = begin_loading eng name s1;
                  s3 = manage_memory name s2
              in (case do_load eng name s3 of
                    Inl failure \<Rightarrow> failure
                  | Inr s4 \<Rightarrow> (Inr name, finish_loading eng cfg name start_time s4)))"

subsection \<open>The idle-eviction loop\<close>

text \<open>The second \<^verbatim>\<open>for\<close> loop of \<^verbatim>\<open>_ttl_checker_loop\<close>. A \<^verbatim>\<open>del\<close> of a missing key
  raises, which the loop's \<^verbatim>\<open>except Exception\<close> catches: the iteration ends there.\<close>

fun unload_idle :: "(string \<times> real) list \<Rightarrow> manager \<Rightarrow> manager" where
  "unload_idle [] s = s"
| "unload_idle ((name, idle_time) # rest) s =
     (let s1 = unload_model name s
      in if map_of (last_used s1) name = None then s1
         else unload_idle rest (s1\<lparr>last_used := AList.delete name (last_used s1)\<rparr>))"

text \<open>One iteration of the \<^verbatim>\<open>while\<close> loop, after the sleep.\<close>

definition idle_models :: "engine \<Rightarrow> ServerConfig \<Rightarrow> real \<Rightarrow> manager \<Rightarrow> (string \<times> real) list" where
  "idle_models eng cfg now s =
     map (\<lambda>(name, lu). (name, fsub eng now lu))
       (filter (\<lambda>(name, lu). is_resident s name
                  \<and> fsub eng now lu \<ge> real_of_int (idle_ttl_seconds cfg))
          (last_used s))"

definition ttl_checker_tick :: "engine \<Rightarrow> ServerConfig \<Rightarrow> manager \<Rightarrow> manager" where
  "ttl_checker_tick eng cfg s =
     (let (now, s1) = time_time eng s
      in unload_idle (idle_models eng cfg now s1) s1)"

subsection \<open>Embeddings and the result cache\<close>

definition cache_key :: "string \<Rightarrow> string \<Rightarrow> bool \<Rightarrow> string" where
  "cache_key name text normalise =
     name @ '':'' @ text @ '':'' @ (if normalise then ''True'' else ''False'')"

definition cache_capacity :: nat where
  "cache_capacity = 1000"

text \<open>\<^verbatim>\<open>if len(self._embedding_cache) < 1000: self._embedding_cache[cache_key] = embedding\<close>\<close>

definition cache_put :: "string \<Rightarrow> embedding \<Rightarrow> manager \<Rightarrow> manager" where
  "cache_put key e s =
     (if length (embedding_cache s) < cache_capacity
      then s\<lparr>embedding_cache := AList.update key e (embedding_cache s)\<rparr>
      else s)"

text \<open>The \<^verbatim>\<open>for text in texts\<close> loop of \<^verbatim>\<open>generate_embeddings\<close>.\<close>

fun embed_texts ::
  "engine \<Rightarrow> ServerConfig \<Rightarrow> string \<Rightarrow> handle \<Rightarrow> bool \<Rightarrow> string list \<Rightarrow> embedding list \<Rightarrow> manager
    \<Rightarrow> (error + embedding list) \<times> manager" where
  "embed_texts eng cfg name h normalise [] embeddings s = (Inr embeddings, s)"
| "embed_texts eng cfg name h normalise (text # rest) embeddings s =
     (case map_of (embedding_cache s) (cache_key name text normalise) of
        Some e \<Rightarrow> embed_texts eng cfg name h normalise rest (embeddings @ [e]) s
      | None \<Rightarrow>
          (case encode eng h text of
             Inl err \<Rightarrow> (Inl (EngineFailure err), s)
           | Inr tokens \<Rightarrow>
               let r = forward_pass eng h (truncate_tokens (max_text_length cfg) tokens)
                         normalise (forward_calls s);
                   s1 = s\<lparr>forward_calls := Suc (forward_calls s)\<rparr>
               in (case r of
                     Inl err \<Rightarrow> (Inl (EngineFailure err), s1)
                   | Inr e \<Rightarrow>
                       embed_texts eng cfg name h normalise rest (embeddings @ [e])
                         (cache_put (cache_key name text normalise) e s1))))"

text \<open>\<^verbatim>\<open>np.array(embeddings, dtype=np.float32)\<close> raises on rows of different lengths.\<close>

definition homogeneous :: "embedding list \<Rightarrow> bool" where
  "homogeneous es = (case es of [] \<Rightarrow> True | e # rest \<Rightarrow> list_all (\<lambda>x. length x = length e) rest)"

definition generate_embeddings ::
  "engine \<Rightarrow> ServerConfig \<Rightarrow> string list \<Rightarrow> string option \<Rightarrow> bool \<Rightarrow> manager
    \<Rightarrow> (error + embedding list \<times> string \<times> nat) \<times> manager" where
  "generate_embeddings eng cfg texts model_identifier normalise s =
     (case load_model eng cfg model_identifier s of
        (Inl e, s1) \<Rightarrow> (Inl e, s1)
      | (Inr name, s1) \<Rightarrow>
          let s2 = update_last_used eng name s1 in
          if model_status s2 name \<noteq> Some READY then (Inl (ModelNotReady name), s2)
          else if texts = [] then
            (case map_of AVAILABLE_MODELS name of
               None \<Rightarrow> (Inl (KeyError name), s2)
             | Some info \<Rightarrow> (Inr ([], name, embedding_dim info), s2))
          else
            (case map_of (models s2) name of
               None \<Rightarrow> (Inl (KeyError name), s2)
             | Some h \<Rightarrow>
                 (case map_of AVAILABLE_MODELS name of
                    None \<Rightarrow> (Inl (KeyError name), s2)
                  | Some info \<Rightarrow>
                      (case embed_texts eng cfg name h normalise texts [] s2 of
                         (Inl e, s3) \<Rightarrow> (Inl e, s3)
                       | (Inr embeddings, s3) \<Rightarrow>
                           if homogeneous embeddings
                           then (Inr (embeddings, name, embedding_dim info), s3)
                           else (Inl InhomogeneousShape, s3)))))"

subsection \<open>Status reports\<close>

text \<open>\<^verbatim>\<open>int(x)\<close> of a float truncates towards zero.\<close>

definition py_int :: "real \<Rightarrow> int" where
  "py_int x = (if x \<ge> 0 then \<lfloor>x\<rfloor> else \<lceil>x\<rceil>)"

text \<open>\<^verbatim>\<open>self.model_status.get(name, ModelStatus.UNLOADED)\<close>\<close>

definition status_or_unloaded :: "manager \<Rightarrow> string \<Rightarrow> ModelStatus" where
  "status_or_unloaded s name = (case model_status s name of None \<Rightarrow> UNLOADED | Some st \<Rightarrow> st)"

record model_report =
  mr_status :: ModelStatus
  mr_model_name :: string
  mr_embedding_dim :: nat
  mr_load_time :: "real option"
  mr_description :: string

record status_entry =
  se_status :: ModelStatus
  se_embedding_dim :: nat
  se_load_time :: "real option"
  se_aliases :: "string list"
  se_description :: string
  se_idle_seconds :: "int option"
  se_ttl_remaining_seconds :: "int option"

record server_report =
  sr_loaded_models :: "string list"
  sr_default_model :: string
  sr_max_batch_size :: int
  sr_max_text_length :: nat
  sr_cache_size :: nat
  sr_models_dir :: string
  sr_lazy_load :: bool
  sr_idle_ttl_seconds :: int
  sr_models :: "(string \<times> status_entry) list"

datatype report = ModelReport model_report | ServerReport server_report

text \<open>The entry of one model in the full report. \<^verbatim>\<open>idle_ttl_seconds - idle_time\<close> converts the
  integer to a float, which raises for an integer beyond the range of floats.\<close>

definition make_status_entry ::
  "engine \<Rightarrow> ServerConfig \<Rightarrow> real \<Rightarrow> manager \<Rightarrow> string \<Rightarrow> model_info \<Rightarrow> error + status_entry" where
  "make_status_entry eng cfg now s name info =
     (let entry = \<lparr>se_status = status_or_unloaded s name,
                    se_embedding_dim = embedding_dim info,
                    se_load_time = model_load_times s name,
                    se_aliases = aliases info,
                    se_description = description info,
                    se_idle_seconds = None,
                    se_ttl_remaining_seconds = None\<rparr>
      in (case map_of (last_used s) name of
            None \<Rightarrow> Inr entry
          | Some lu \<Rightarrow>
              if is_resident s name then
                (let idle_time = fsub eng now lu
                 in (case int_minus_float eng (idle_ttl_seconds cfg) idle_time of
                       None \<Rightarrow> Inl OverflowError
                     | Some d \<Rightarrow>
                         let remaining_ttl = (if d > 0 then d else 0)
                         in Inr (entry\<lparr>se_idle_seconds := Some (py_int idle_time),
                                       se_ttl_remaining_seconds := Some (py_int remaining_ttl)\<rparr>)))
              else Inr entry))"

text \<open>The loop \<^verbatim>\<open>for name in AVAILABLE_MODELS\<close> of the full report; the first exception
  ends it.\<close>

fun status_entries ::
  "engine \<Rightarrow> ServerConfig \<Rightarrow> real \<Rightarrow> manager \<Rightarrow> (string \<times> model_info) list
    \<Rightarrow> error + (string \<times> status_entry) list" where
  "status_entries eng cfg now s [] = Inr []"
| "status_entries eng cfg now s ((name, info) # rest) =
     (case make_status_entry eng cfg now s name info of
        Inl e \<Rightarrow> Inl e
      | Inr entry \<Rightarrow>
          (case status_entries eng cfg now s rest of
             Inl e \<Rightarrow> Inl e
           | Inr entries \<Rightarrow> Inr ((name, entry) # entries)))"

definition get_status ::
  "engine \<Rightarrow> ServerConfig \<Rightarrow> string option \<Rightarrow> manager \<Rightarrow> (error + report) \<times> manager" where
  "get_status eng cfg model_identifier s =
     (if model_identifier \<noteq> None \<and> model_identifier \<noteq> Some [] then
        (case resolve_model_name cfg model_identifier of
           Inl e \<Rightarrow> (Inl e, s)
         | Inr name \<Rightarrow>
             (case map_of AVAILABLE_MODELS name of
                None \<Rightarrow> (Inl (KeyError name), s)
              | Some info \<Rightarrow>
                  (Inr (ModelReport
                     \<lparr>mr_status = status_or_unloaded s name,
                      mr_model_name = name,
                      mr_embedding_dim = embedding_dim info,
                      mr_load_time = model_load_times s name,
                      mr_description = description info\<rparr>), s)))
      else
        let (now, s1) = time_time eng s
        in (case status_entries eng cfg now s1 AVAILABLE_MODELS of
              Inl e \<Rightarrow> (Inl e, s1)
            | Inr entries \<Rightarrow>
                (Inr (ServerReport
                   \<lparr>sr_loaded_models = map fst (models s1),
                    sr_default_model = model_name cfg,
                    sr_max_batch_size = max_batch_size cfg,
                    sr_max_text_length = max_text_length cfg,
                    sr_cache_size = length (embedding_cache s1),
                    sr_models_dir = models_dir cfg,
                    sr_lazy_load = lazy_load cfg,
                    sr_idle_ttl_seconds = idle_ttl_seconds cfg,
                    sr_models = entries\<rparr>), s1)))"

subsection \<open>Requests served one after the other\<close>

text \<open>No coroutine of the manager suspends while it works: \<^verbatim>\<open>load\<close> and the forward pass
  are synchronous calls, \<^verbatim>\<open>_manage_memory\<close> and \<^verbatim>\<open>_warmup\<close> contain no \<^verbatim>\<open>await\<close>, and an
  \<^verbatim>\<open>asyncio.Lock\<close> that is free is acquired without yielding to the event loop. No lock
  is therefore ever held when the event loop switches to another coroutine, and the event
  loop runs the requests, and the iterations of the idle-eviction loop, one after the
  other, each to its end. The idle-eviction loop exists only for a positive
  \<^verbatim>\<open>idle_ttl_seconds\<close> (\<^verbatim>\<open>start_ttl_checker\<close>).\<close>

datatype request =
    Embed "string list" "string option" bool
  | Load "string option"
  | Status "string option"
  | Tick

fun serve :: "engine \<Rightarrow> ServerConfig \<Rightarrow> request \<Rightarrow> manager \<Rightarrow> manager" where
  "serve eng cfg (Embed texts ident normalise) s =
     snd (generate_embeddings eng cfg texts ident normalise s)"
| "serve eng cfg (Load ident) s = snd (load_model eng cfg ident s)"
| "serve eng cfg (Status ident) s = snd (get_status eng cfg ident s)"
| "serve eng cfg Tick s =
     (if idle_ttl_seconds cfg > 0 then ttl_checker_tick eng cfg s else s)"

definition serve_all :: "engine \<Rightarrow> ServerConfig \<Rightarrow> request list \<Rightarrow> manager \<Rightarrow> manager" where
  "serve_all eng cfg reqs s = fold (serve eng cfg) reqs s"

text \<open>Callers of \<^verbatim>\<open>load_model\<close> that are started together: each runs to its end before the
  next one starts; the list holds their arguments in the order in which the event loop
  starts them.\<close>

fun load_all ::
  "engine \<Rightarrow> ServerConfig \<Rightarrow> string option list \<Rightarrow> manager \<Rightarrow> (error + string) list \<times> manager" where
  "load_all eng cfg [] s = ([], s)"
| "load_all eng cfg (ident # rest) s =
     (let (r, s1) = load_model eng cfg ident s;
          (rs, s2) = load_all eng cfg rest s1
      in (r # rs, s2))"

section \<open>The reranker manager\<close>

record reranker_info =
  rr_aliases :: "string list"
  max_length :: nat
  rr_description :: string

definition AVAILABLE_RERANKER_MODELS :: "(string \<times> reranker_info) list" where
  "AVAILABLE_RERANKER_MODELS =
    [(''Qwen/Qwen3-Reranker-0.6B'',
        \<lparr>rr_aliases = [''reranker-small'', ''reranker-0.6b'', ''reranker-default''],
         max_length = 8192,
         rr_description = ''Small 0.6B reranker, fast cross-encoder scoring (~1.5GB)''\<rparr>),
     (''Qwen/Qwen3-Reranker-4B'',
        \<lparr>rr_aliases = [''reranker-medium'', ''reranker-4b''],
         max_length = 8192,
         rr_description = ''Medium 4B reranker, balanced quality (~8GB)''\<rparr>),
     (''Qwen/Qwen3-Reranker-8B'',
        \<lparr>rr_aliases = [''reranker-large'', ''reranker-8b''],
         max_length = 8192,
         rr_description = ''Large 8B reranker, highest quality (~16GB)''\<rparr>)]"

definition DEFAULT_RERANKER_MODEL :: string where
  "DEFAULT_RERANKER_MODEL = ''Qwen/Qwen3-Reranker-0.6B''"

definition RERANKER_ALIASES :: "(string \<times> string) list" where
  "RERANKER_ALIASES =
     build_aliases (map (\<lambda>(name, info). (name, rr_aliases info)) AVAILABLE_RERANKER_MODELS)"

subsection \<open>Floats\<close>

text \<open>The logits and the scores are floats that can be infinite or NaN. A float is
  represented by the value it denotes. \<open><\<close> and \<open>\<ge>\<close> on floats are exact; a comparison with
  NaN is false.\<close>

datatype pyfloat = Num real | PosInf | NegInf | NaN

fun rank :: "pyfloat \<Rightarrow> int \<times> real" where
  "rank NegInf = (-1, 0)"
| "rank (Num r) = (0, r)"
| "rank PosInf = (1, 0)"
| "rank NaN = (2, 0)"

definition flt :: "pyfloat \<Rightarrow> pyfloat \<Rightarrow> bool" where
  "flt a b = (a \<noteq> NaN \<and> b \<noteq> NaN \<and> rank a < rank b)"

definition fge :: "pyfloat \<Rightarrow> pyfloat \<Rightarrow> bool" where
  "fge a b = (a \<noteq> NaN \<and> b \<noteq> NaN \<and> rank a \<ge> rank b)"

text \<open>The builtin \<^verbatim>\<open>max(a, b)\<close> returns \<^verbatim>\<open>b\<close> if \<^verbatim>\<open>b > a\<close> and \<^verbatim>\<open>a\<close> otherwise.\<close>

definition py_max :: "pyfloat \<Rightarrow> pyfloat \<Rightarrow> pyfloat" where
  "py_max a b = (if flt a b then b else a)"

subsection \<open>The collaborators of the reranker\<close>

text \<open>\<open>token_ids\<close> is the lookup of the ids of the tokens \<^verbatim>\<open>yes\<close> and \<^verbatim>\<open>no\<close> with its
  fallback; \<open>last_logits\<close> is the forward pass and the read of the two logits at the last
  position; \<open>f_sub\<close>, \<open>f_add\<close>, \<open>f_div\<close> and \<open>f_exp\<close> are the floating-point operations
  \<^verbatim>\<open>-\<close>, \<^verbatim>\<open>+\<close>, \<^verbatim>\<open>/\<close> and \<^verbatim>\<open>np.exp\<close>; \<open>rr_fsub\<close> is the subtraction of two timestamps.
  \<open>nan_order\<close> stands for what \<^verbatim>\<open>list.sort\<close> does to a list some of whose keys are NaN:
  the comparisons are then not an order, and the positions at which the elements end up
  depend on the sorting algorithm of the interpreter.\<close>

record rerank_engine =
  rr_load :: "string \<Rightarrow> nat \<Rightarrow> string + handle"
  token_ids :: "handle \<Rightarrow> string + nat \<times> nat"
  rr_encode :: "handle \<Rightarrow> string \<Rightarrow> string + nat list"
  last_logits :: "handle \<Rightarrow> nat list \<Rightarrow> nat \<Rightarrow> nat \<Rightarrow> nat \<Rightarrow> string + pyfloat \<times> pyfloat"
  f_sub :: "pyfloat \<Rightarrow> pyfloat \<Rightarrow> pyfloat"
  f_add :: "pyfloat \<Rightarrow> pyfloat \<Rightarrow> pyfloat"
  f_div :: "pyfloat \<Rightarrow> pyfloat \<Rightarrow> pyfloat"
  f_exp :: "pyfloat \<Rightarrow> pyfloat"
  nan_order :: "(nat \<times> pyfloat \<times> string) list \<Rightarrow> nat list"
  rr_clock :: "nat \<Rightarrow> real"
  rr_fsub :: "real \<Rightarrow> real \<Rightarrow> real"

record reranker =
  rr_models :: "(string \<times> handle) list"
  rr_model_status :: "string \<rightharpoonup> ModelStatus"
  rr_model_load_times :: "string \<rightharpoonup> real"
  rr_locks :: "string set"
  rr_last_used :: "(string \<times> real) list"
  rr_token_ids :: "(string \<times> nat \<times> nat) list"
  rr_load_calls :: "string \<Rightarrow> nat"
  rr_forward_calls :: nat
  rr_clock_reads :: nat

definition rr_max_loaded_models :: nat where
  "rr_max_loaded_models = 1"

definition init_reranker :: reranker where
  "init_reranker =
     \<lparr>rr_models = [], rr_model_status = Map.empty, rr_model_load_times = Map.empty,
      rr_locks = {}, rr_last_used = [], rr_token_ids = [], rr_load_calls = (\<lambda>name. 0),
      rr_forward_calls = 0, rr_clock_reads = 0\<rparr>"

definition rr_time :: "rerank_engine \<Rightarrow> reranker \<Rightarrow> real \<times> reranker" where
  "rr_time eng s = (rr_clock eng (rr_clock_reads s), s\<lparr>rr_clock_reads := Suc (rr_clock_reads s)\<rparr>)"

definition rr_resolve_model_name :: "string option \<Rightarrow> error + string" where
  "rr_resolve_model_name model_identifier =
     (case model_identifier of
        None \<Rightarrow> Inr DEFAULT_RERANKER_MODEL
      | Some ident \<Rightarrow>
          if ident = [] then Inr DEFAULT_RERANKER_MODEL
          else (case map_of RERANKER_ALIASES (lower ident) of
                  Some name \<Rightarrow> Inr name
                | None \<Rightarrow>
                    if map_of AVAILABLE_RERANKER_MODELS ident \<noteq> None then Inr ident
                    else Inl (UnknownModel ident)))"

definition rr_unload_model :: "string \<Rightarrow> reranker \<Rightarrow> reranker" where
  "rr_unload_model name s =
     (if map_of (rr_models s) name = None then s
      else s\<lparr>rr_models := AList.delete name (rr_models s),
             rr_token_ids := AList.delete name (rr_token_ids s),
             rr_model_status := (rr_model_status s)(name \<mapsto> UNLOADED)\<rparr>)"

definition rr_manage_memory :: "string \<Rightarrow> reranker \<Rightarrow> reranker" where
  "rr_manage_memory new_model s =
     (if length (rr_models s) \<ge> rr_max_loaded_models then
        (case filter (\<lambda>m. m \<noteq> new_model) (map fst (rr_models s)) of
           [] \<Rightarrow> s
         | evict_model # _ \<Rightarrow> rr_unload_model evict_model s)
      else s)"

definition nl :: string where
  "nl = [CHR 0x0A]"

definition SYSTEM_PROMPT :: string where
  "SYSTEM_PROMPT =
     ''Judge whether the Document meets the requirements based on the Query ''
     @ ''and the Instruct provided. Note that the answer can only be ''
     @ [CHR 0x22] @ ''yes'' @ [CHR 0x22] @ '' or '' @ [CHR 0x22] @ ''no'' @ [CHR 0x22] @ ''.''"

definition DEFAULT_INSTRUCTION :: string where
  "DEFAULT_INSTRUCTION =
     ''Given a search query, retrieve relevant code or documentation that answers the query''"

definition format_pair :: "string \<Rightarrow> string \<Rightarrow> string option \<Rightarrow> string" where
  "format_pair query document instruction =
     (let instr = (case instruction of None \<Rightarrow> DEFAULT_INSTRUCTION | Some i \<Rightarrow> i)
      in ''<|im_start|>system'' @ nl @ SYSTEM_PROMPT @ ''<|im_end|>'' @ nl
         @ ''<|im_start|>user'' @ nl
         @ ''<Instruct>: '' @ instr @ nl
         @ ''<Query>: '' @ query @ nl
         @ ''<Document>: '' @ document @ nl
         @ ''<|im_end|>'' @ nl
         @ ''<|im_start|>assistant'' @ nl
         @ ''<think>'' @ nl @ nl @ ''</think>'' @ nl @ nl)"

text \<open>\<^verbatim>\<open>_warmup\<close> of the reranker: one forward pass on at most 512 tokens; every exception
  is swallowed.\<close>

definition rr_warmup :: "rerank_engine \<Rightarrow> string \<Rightarrow> reranker \<Rightarrow> reranker" where
  "rr_warmup eng name s =
     (case map_of (rr_models s) name of
        None \<Rightarrow> s
      | Some h \<Rightarrow>
          (case map_of (rr_token_ids s) name of
             None \<Rightarrow> s
           | Some ids \<Rightarrow>
               (case rr_encode eng h (format_pair ''warmup query'' ''warmup document'' None) of
                  Inl e \<Rightarrow> s
                | Inr tokens \<Rightarrow> s\<lparr>rr_forward_calls := Suc (rr_forward_calls s)\<rparr>)))"

definition rr_ready_now :: "reranker \<Rightarrow> string \<Rightarrow> bool" where
  "rr_ready_now s name = (map_of (rr_models s) name \<noteq> None \<and> rr_model_status s name = Some READY)"

definition rr_load_failed :: "string \<Rightarrow> error \<Rightarrow> reranker \<Rightarrow> (error + string) \<times> reranker" where
  "rr_load_failed name e s =
     (Inl (ModelLoadingFailed e), s\<lparr>rr_model_status := (rr_model_status s)(name \<mapsto> ERROR)\<rparr>)"

definition rr_load_model ::
  "rerank_engine \<Rightarrow> string option \<Rightarrow> reranker \<Rightarrow> (error + string) \<times> reranker" where
  "rr_load_model eng model_identifier s =
     (case rr_resolve_model_name model_identifier of
        Inl e \<Rightarrow> (Inl e, s)
      | Inr name \<Rightarrow>
          if rr_ready_now s name then (Inr name, s)
          else
            let s1 = s\<lparr>rr_locks := insert name (rr_locks s)\<rparr> in
            if rr_ready_now s1 name then (Inr name, s1)
            else
              let s2 = s1\<lparr>rr_model_status := (rr_model_status s1)(name \<mapsto> LOADING)\<rparr>;
                  (start_time, s3) = rr_time eng s2;
                  s4 = rr_manage_memory name s3;
                  r = rr_load eng name (rr_load_calls s4 name);
                  s5 = s4\<lparr>rr_load_calls := (rr_load_calls s4)(name := Suc (rr_load_calls s4 name))\<rparr>
              in (case r of
                    Inl e \<Rightarrow> rr_load_failed name (EngineFailure e) s5
                  | Inr h \<Rightarrow>
                      (case token_ids eng h of
                         Inl e \<Rightarrow> rr_load_failed name (EngineFailure e) s5
                       | Inr ids \<Rightarrow>
                           let s6 = s5\<lparr>rr_token_ids := AList.update name ids (rr_token_ids s5),
                                       rr_models := AList.update name h (rr_models s5)\<rparr>;
                               s7 = rr_warmup eng name s6;
                               (t, s8) = rr_time eng s7;
                               s9 = s8\<lparr>rr_model_load_times :=
                                          (rr_model_load_times s8)(name \<mapsto> rr_fsub eng t start_time),
                                       rr_model_status := (rr_model_status s8)(name \<mapsto> READY)\<rparr>;
                               (t', s10) = rr_time eng s9
                           in (Inr name,
                               s10\<lparr>rr_last_used := AList.update name t' (rr_last_used s10)\<rparr>))))"

text \<open>Callers of \<^verbatim>\<open>load_model\<close> of the reranker that are started together.\<close>

fun rr_load_all ::
  "rerank_engine \<Rightarrow> string option list \<Rightarrow> reranker \<Rightarrow> (error + string) list \<times> reranker" where
  "rr_load_all eng [] s = ([], s)"
| "rr_load_all eng (ident # rest) s =
     (let (r, s1) = rr_load_model eng ident s;
          (rs, s2) = rr_load_all eng rest s1
      in (r # rs, s2))"

subsection \<open>Scoring and ranking\<close>

text \<open>The two-way softmax over the logits of \<^verbatim>\<open>yes\<close> and \<^verbatim>\<open>no\<close>.\<close>

definition yes_probability :: "rerank_engine \<Rightarrow> pyfloat \<Rightarrow> pyfloat \<Rightarrow> pyfloat" where
  "yes_probability eng yes_logit no_logit =
     (let max_logit = py_max yes_logit no_logit;
          yes_exp = f_exp eng (f_sub eng yes_logit max_logit);
          no_exp = f_exp eng (f_sub eng no_logit max_logit)
      in f_div eng yes_exp (f_add eng yes_exp no_exp))"

type_synonym scored = "nat \<times> pyfloat \<times> string"

definition score_of :: "scored \<Rightarrow> pyfloat" where
  "score_of x = fst (snd x)"

text \<open>The \<^verbatim>\<open>for idx, doc in enumerate(documents)\<close> loop; a document whose scoring raises
  gets the score \<^verbatim>\<open>0.0\<close>.\<close>

fun score_documents ::
  "rerank_engine \<Rightarrow> handle \<Rightarrow> nat \<times> nat \<Rightarrow> nat \<Rightarrow> string \<Rightarrow> string option
    \<Rightarrow> (nat \<times> string) list \<Rightarrow> scored list \<Rightarrow> reranker \<Rightarrow> scored list \<times> reranker" where
  "score_documents eng h ids maxlen query instruction [] acc s = (acc, s)"
| "score_documents eng h ids maxlen query instruction ((idx, doc) # rest) acc s =
     (case rr_encode eng h (format_pair query doc instruction) of
        Inl e \<Rightarrow>
          score_documents eng h ids maxlen query instruction rest (acc @ [(idx, Num 0, doc)]) s
      | Inr tokens \<Rightarrow>
          let r = last_logits eng h (truncate_tokens maxlen tokens) (fst ids) (snd ids)
                    (rr_forward_calls s);
              s1 = s\<lparr>rr_forward_calls := Suc (rr_forward_calls s)\<rparr>
          in (case r of
                Inl e \<Rightarrow>
                  score_documents eng h ids maxlen query instruction rest
                    (acc @ [(idx, Num 0, doc)]) s1
              | Inr (yes_logit, no_logit) \<Rightarrow>
                  score_documents eng h ids maxlen query instruction rest
                    (acc @ [(idx, yes_probability eng yes_logit no_logit, doc)]) s1))"

text \<open>\<^verbatim>\<open>results.sort(key=lambda x: x[1], reverse=True)\<close>. When no key is NaN the keys are
  totally ordered, and \<^verbatim>\<open>list.sort\<close> with \<^verbatim>\<open>reverse=True\<close> reverses the list, sorts it with
  a stable ascending sort and reverses the result, which keeps elements with equal keys in
  their original order. When a key is NaN the result is the rearrangement that the sorting
  algorithm happens to produce, which the engine names by the list of the old positions
  (\<open>nan_order\<close>); a list of positions that is not a rearrangement is ignored.\<close>

definition py_sort_reverse :: "(scored list \<Rightarrow> nat list) \<Rightarrow> scored list \<Rightarrow> scored list" where
  "py_sort_reverse order xs =
     (if list_all (\<lambda>x. score_of x \<noteq> NaN) xs
      then rev (sort_key (\<lambda>x. rank (score_of x)) (rev xs))
      else (let p = order xs
            in if sort p = [0..<length xs] then map (\<lambda>i. xs ! i) p else xs))"

definition apply_top_k :: "int option \<Rightarrow> 'a list \<Rightarrow> 'a list" where
  "apply_top_k top_k xs =
     (case top_k of
        None \<Rightarrow> xs
      | Some k \<Rightarrow> if k > 0 then take (nat k) xs else xs)"

definition rerank ::
  "rerank_engine \<Rightarrow> string \<Rightarrow> string list \<Rightarrow> string option \<Rightarrow> string option \<Rightarrow> int option
    \<Rightarrow> reranker \<Rightarrow> (error + scored list) \<times> reranker" where
  "rerank eng query documents model_identifier instruction top_k s =
     (case rr_load_model eng model_identifier s of
        (Inl e, s1) \<Rightarrow> (Inl e, s1)
      | (Inr name, s1) \<Rightarrow>
          let (now, s2) = rr_time eng s1;
              s3 = s2\<lparr>rr_last_used := AList.update name now (rr_last_used s2)\<rparr>
          in if documents = [] then (Inr [], s3)
             else
               (case map_of (rr_models s3) name of
                  None \<Rightarrow> (Inl (KeyError name), s3)
                | Some h \<Rightarrow>
                    (case map_of (rr_token_ids s3) name of
                       None \<Rightarrow> (Inl (KeyError name), s3)
                     | Some ids \<Rightarrow>
                         (case map_of AVAILABLE_RERANKER_MODELS name of
                            None \<Rightarrow> (Inl (KeyError name), s3)
                          | Some info \<Rightarrow>
                              let (scored, s4) =
                                    score_documents eng h ids (max_length info) query instruction
                                      (enumerate 0 documents) [] s3
                              in (Inr (apply_top_k top_k (py_sort_reverse (nan_order eng) scored)),
                                  s4)))))"

section \<open>Auxiliary notions for the proofs\<close>

text \<open>The model that \<^verbatim>\<open>_manage_memory\<close> evicts, if any, and the state in which
  \<^verbatim>\<open>load(model_name)\<close> is called.\<close>

definition victim :: "string \<Rightarrow> (string \<times> handle) list \<Rightarrow> string option" where
  "victim new_model ms =
     (if length ms \<ge> max_loaded_models then
        (case filter (\<lambda>m. m \<noteq> new_model) (map fst ms) of [] \<Rightarrow> None | v # _ \<Rightarrow> Some v)
      else None)"

definition pre_load :: "engine \<Rightarrow> string \<Rightarrow> manager \<Rightarrow> manager" where
  "pre_load eng name s = manage_memory name (snd (begin_loading eng name (create_lock name s)))"

text \<open>The outcome of \<^verbatim>\<open>load(model_name)\<close> followed by the architecture check, and the two
  states in which a loading \<^verbatim>\<open>load_model\<close> can end.\<close>

definition load_outcome :: "engine \<Rightarrow> string \<Rightarrow> nat \<Rightarrow> error + handle" where
  "load_outcome eng name n =
     (case load eng name n of
        Inl e \<Rightarrow> Inl (EngineFailure e)
      | Inr h \<Rightarrow> if has_model_attr h then Inr h else Inl InvalidArchitecture)"

definition failed_state :: "engine \<Rightarrow> string \<Rightarrow> manager \<Rightarrow> manager" where
  "failed_state eng name s =
     (pre_load eng name s)
       \<lparr>load_calls := (load_calls s)(name := Suc (load_calls s name)),
        model_status := (model_status (pre_load eng name s))(name \<mapsto> ERROR)\<rparr>"

definition loaded_state :: "engine \<Rightarrow> ServerConfig \<Rightarrow> string \<Rightarrow> handle \<Rightarrow> manager \<Rightarrow> manager" where
  "loaded_state eng cfg name h s =
     finish_loading eng cfg name (clock eng (clock_reads s))
       ((pre_load eng name s)
          \<lparr>load_calls := (load_calls s)(name := Suc (load_calls s name)),
           models := AList.update name h (models (pre_load eng name s))\<rparr>)"

text \<open>Every resident model is READY: an invariant of the manager.\<close>

definition resident_ready :: "manager \<Rightarrow> bool" where
  "resident_ready s = list_all (\<lambda>(name, h). model_status s name = Some READY) (models s)"

text \<open>The model a request asks \<^verbatim>\<open>load_model\<close> for.\<close>

definition request_key :: "ServerConfig \<Rightarrow> request \<Rightarrow> string option" where
  "request_key cfg r =
     (case r of
        Embed texts ident normalise \<Rightarrow>
          (case resolve_model_name cfg ident of Inl e \<Rightarrow> None | Inr name \<Rightarrow> Some name)
      | Load ident \<Rightarrow>
          (case resolve_model_name cfg ident of Inl e \<Rightarrow> None | Inr name \<Rightarrow> Some name)
      | Status ident \<Rightarrow> None
      | Tick \<Rightarrow> None)"

text \<open>An engine and a configuration for the examples: every load succeeds, the tokenizer
  maps a text to one token per character, the forward pass returns the number of the call
  as a one-element vector, the clock advances by one second at each reading, and the
  subtractions are exact.\<close>

definition demo_engine :: engine where
  "demo_engine =
     \<lparr>load = (\<lambda>name n. Inr (Handle n True)),
      encode = (\<lambda>h text. Inr (map of_char text)),
      forward_pass = (\<lambda>h tokens normalise n. Inr [of_nat n]),
      clock = (\<lambda>n. real n),
      fsub = (\<lambda>a b. a - b),
      int_minus_float = (\<lambda>i x. Some (real_of_int i - x))\<rparr>"

definition demo_config :: ServerConfig where
  "demo_config =
     \<lparr>model_name = DEFAULT_MODEL, max_batch_size = 1024, max_text_length = 8192,
      models_dir = ''models'', lazy_load = True, idle_ttl_seconds = 300\<rparr>"

definition manager_inv :: "manager \<Rightarrow> bool" where
  "manager_inv s \<longleftrightarrow>
     length (models s) \<le> max_loaded_models \<and> distinct (map fst (models s)) \<and> resident_ready s"

definition slot_is :: "string \<Rightarrow> ModelStatus option \<Rightarrow> nat \<Rightarrow> manager \<Rightarrow> bool" where
  "slot_is k st n s \<longleftrightarrow> \<not> is_resident s k \<and> model_status s k = st \<and> load_calls s k = n"

definition flaky_engine :: engine where
  "flaky_engine =
     demo_engine\<lparr>load := (\<lambda>name n. if n = 0 then Inl ''load failed''
                                  else Inr (Handle n True))\<rparr>"

section \<open>Properties of the managers\<close>

lemma fold_delete_filter:
  "fold AList.delete ks al = filter (\<lambda>(k, v). k \<notin> set ks) al"
proof (induction ks arbitrary: al)
  case Nil
  then show ?case by simp
next
  case (Cons k ks)
  have "fold AList.delete (k # ks) al = fold AList.delete ks (AList.delete k al)"
    by simp
  also have "\<dots> = filter (\<lambda>(k', v). k' \<notin> set ks) (AList.delete k al)"
    by (rule Cons.IH)
  also have "\<dots> = filter (\<lambda>(k', v). k' \<notin> set (k # ks)) al"
    by (auto simp: AList.delete_eq intro!: filter_cong)
  finally show ?case .
qed

lemma purge_filter:
  "fold AList.delete (filter P (map fst al)) al = filter (\<lambda>(k, v). \<not> P k) al"
  unfolding fold_delete_filter
  by (rule filter_cong) (auto simp: case_prod_beta)

lemma map_of_filter_key:
  "map_of (filter (\<lambda>(k, v). Q k) al) x = (if Q x then map_of al x else None)"
  by (induction al) auto

lemma embedding_cache_unload_model:
  "embedding_cache (unload_model name s) =
     (if is_resident s name
      then filter (\<lambda>(k, v). \<not> prefix (name @ '':'') k) (embedding_cache s)
      else embedding_cache s)"
  by (simp add: unload_model_def Let_def purge_filter)

lemma models_unload_model:
  "models (unload_model name s) = AList.delete name (models s)"
  by (simp add: unload_model_def Let_def is_resident_def map_of_eq_None_iff)

lemma model_status_unload_model:
  "model_status (unload_model name s) =
     (if is_resident s name then (model_status s)(name \<mapsto> UNLOADED) else model_status s)"
  by (simp add: unload_model_def Let_def)

lemma unload_model_frame:
  "last_used (unload_model name s) = last_used s"
  "load_calls (unload_model name s) = load_calls s"
  "forward_calls (unload_model name s) = forward_calls s"
  "clock_reads (unload_model name s) = clock_reads s"
  "locks (unload_model name s) = locks s"
  "model_load_times (unload_model name s) = model_load_times s"
  by (simp_all add: unload_model_def Let_def)

lemma length_filter_cache_le:
  "length (embedding_cache (unload_model name s)) \<le> length (embedding_cache s)"
  by (simp add: embedding_cache_unload_model)

lemma manage_memory_cases:
  "manage_memory k s = s \<or> (\<exists>v. v \<noteq> k \<and> is_resident s v \<and> manage_memory k s = unload_model v s)"
proof (cases "filter (\<lambda>m. m \<noteq> k) (map fst (models s))")
  case Nil
  then show ?thesis by (simp add: manage_memory_def)
next
  case (Cons v vs)
  then have "v \<in> set (filter (\<lambda>m. m \<noteq> k) (map fst (models s)))" by simp
  then have "v \<noteq> k" "v \<in> fst ` set (models s)" by auto
  then have "is_resident s v" by (simp add: is_resident_def map_of_eq_None_iff)
  with Cons \<open>v \<noteq> k\<close> show ?thesis by (auto simp: manage_memory_def)
qed

lemma manage_memory_frame:
  "last_used (manage_memory k s) = last_used s"
  "load_calls (manage_memory k s) = load_calls s"
  "forward_calls (manage_memory k s) = forward_calls s"
  "clock_reads (manage_memory k s) = clock_reads s"
  "locks (manage_memory k s) = locks s"
  "model_load_times (manage_memory k s) = model_load_times s"
  using manage_memory_cases [of k s] by (auto simp: unload_model_frame)

lemma manage_memory_cache_le:
  "length (embedding_cache (manage_memory k s)) \<le> length (embedding_cache s)"
  using manage_memory_cases [of k s] by (auto simp: length_filter_cache_le)

lemma time_time_frame:
  "models (snd (time_time eng s)) = models s"
  "model_status (snd (time_time eng s)) = model_status s"
  "embedding_cache (snd (time_time eng s)) = embedding_cache s"
  "last_used (snd (time_time eng s)) = last_used s"
  "load_calls (snd (time_time eng s)) = load_calls s"
  "forward_calls (snd (time_time eng s)) = forward_calls s"
  "locks (snd (time_time eng s)) = locks s"
  "model_load_times (snd (time_time eng s)) = model_load_times s"
  "clock_reads (snd (time_time eng s)) = Suc (clock_reads s)"
  "fst (time_time eng s) = clock eng (clock_reads s)"
  by (simp_all add: time_time_def)

lemma update_last_used_frame:
  "models (update_last_used eng k s) = models s"
  "model_status (update_last_used eng k s) = model_status s"
  "embedding_cache (update_last_used eng k s) = embedding_cache s"
  "load_calls (update_last_used eng k s) = load_calls s"
  "forward_calls (update_last_used eng k s) = forward_calls s"
  "locks (update_last_used eng k s) = locks s"
  "model_load_times (update_last_used eng k s) = model_load_times s"
  "clock_reads (update_last_used eng k s) = Suc (clock_reads s)"
  "last_used (update_last_used eng k s) = AList.update k (clock eng (clock_reads s)) (last_used s)"
  by (simp_all add: update_last_used_def time_time_def)

lemma warmup_texts_frame:
  "models (warmup_texts eng cfg h ts s) = models s"
  "model_status (warmup_texts eng cfg h ts s) = model_status s"
  "embedding_cache (warmup_texts eng cfg h ts s) = embedding_cache s"
  "last_used (warmup_texts eng cfg h ts s) = last_used s"
  "load_calls (warmup_texts eng cfg h ts s) = load_calls s"
  "locks (warmup_texts eng cfg h ts s) = locks s"
  "model_load_times (warmup_texts eng cfg h ts s) = model_load_times s"
  "clock_reads (warmup_texts eng cfg h ts s) = clock_reads s"
  by (induction ts arbitrary: s; simp add: Let_def split: sum.splits)+

lemma warmup_frame:
  "models (warmup eng cfg k s) = models s"
  "model_status (warmup eng cfg k s) = model_status s"
  "embedding_cache (warmup eng cfg k s) = embedding_cache s"
  "last_used (warmup eng cfg k s) = last_used s"
  "load_calls (warmup eng cfg k s) = load_calls s"
  "locks (warmup eng cfg k s) = locks s"
  "model_load_times (warmup eng cfg k s) = model_load_times s"
  "clock_reads (warmup eng cfg k s) = clock_reads s"
  by (simp_all add: warmup_def warmup_texts_frame del: warmup_texts.simps split: option.splits)

lemma manage_memory_victim:
  "manage_memory k s = (case victim k (models s) of None \<Rightarrow> s | Some v \<Rightarrow> unload_model v s)"
  by (simp add: manage_memory_def victim_def split: list.splits)

lemma victim_SomeD:
  assumes "victim k ms = Some v"
  shows "v \<noteq> k" and "map_of ms v \<noteq> None" and "length ms \<ge> max_loaded_models"
proof -
  from assms obtain vs where f: "filter (\<lambda>m. m \<noteq> k) (map fst ms) = v # vs"
    and l: "length ms \<ge> max_loaded_models"
    by (auto simp: victim_def split: if_splits list.splits)
  from f have "v \<in> set (filter (\<lambda>m. m \<noteq> k) (map fst ms))" by simp
  then show "v \<noteq> k" and "map_of ms v \<noteq> None"
    by (auto simp: map_of_eq_None_iff)
  from l show "length ms \<ge> max_loaded_models" .
qed

lemma ready_now_create_lock [simp]: "ready_now (create_lock k s) k' = ready_now s k'"
  by (simp add: ready_now_def create_lock_def is_resident_def)

lemma clock_reads_create_lock [simp]: "clock_reads (create_lock k s) = clock_reads s"
  by (simp add: create_lock_def)

lemma load_model_unresolved:
  "resolve_model_name cfg i = Inl e \<Longrightarrow> load_model eng cfg i s = (Inl e, s)"
  by (simp add: load_model_def)

lemma load_model_ready:
  "resolve_model_name cfg i = Inr k \<Longrightarrow> ready_now s k \<Longrightarrow> load_model eng cfg i s = (Inr k, s)"
  by (simp add: load_model_def)

lemma load_model_not_ready:
  assumes "resolve_model_name cfg i = Inr k" and "\<not> ready_now s k"
  shows "load_model eng cfg i s =
           (case do_load eng k (pre_load eng k s) of
              Inl failure \<Rightarrow> failure
            | Inr s4 \<Rightarrow> (Inr k, finish_loading eng cfg k (clock eng (clock_reads s)) s4))"
  using assms
  by (simp add: load_model_def pre_load_def Let_def case_prod_beta begin_loading_def
      time_time_def split: sum.splits)

lemma pre_load_fields:
  "models (pre_load eng k s) =
     (case victim k (models s) of None \<Rightarrow> models s | Some v \<Rightarrow> AList.delete v (models s))"
  "model_status (pre_load eng k s) =
     (case victim k (models s) of
        None \<Rightarrow> (model_status s)(k \<mapsto> LOADING)
      | Some v \<Rightarrow> (model_status s)(k \<mapsto> LOADING, v \<mapsto> UNLOADED))"
  "embedding_cache (pre_load eng k s) =
     (case victim k (models s) of
        None \<Rightarrow> embedding_cache s
      | Some v \<Rightarrow> filter (\<lambda>(key, e). \<not> prefix (v @ '':'') key) (embedding_cache s))"
  "last_used (pre_load eng k s) = last_used s"
  "load_calls (pre_load eng k s) = load_calls s"
  "forward_calls (pre_load eng k s) = forward_calls s"
  "clock_reads (pre_load eng k s) = Suc (clock_reads s)"
  "locks (pre_load eng k s) = insert k (locks s)"
  "model_load_times (pre_load eng k s) = model_load_times s"
  by (auto simp: pre_load_def manage_memory_victim begin_loading_def time_time_def
      create_lock_def models_unload_model model_status_unload_model
      embedding_cache_unload_model unload_model_frame is_resident_def
      split: option.splits dest: victim_SomeD)

lemma do_load_cases:
  "(\<exists>e. do_load eng k s =
          Inl (Inl (ModelLoadingFailed e),
               s\<lparr>load_calls := (load_calls s)(k := Suc (load_calls s k)),
                 model_status := (model_status s)(k \<mapsto> ERROR)\<rparr>)
        \<and> ((\<exists>msg. load eng k (load_calls s k) = Inl msg \<and> e = EngineFailure msg)
            \<or> (\<exists>h. load eng k (load_calls s k) = Inr h \<and> \<not> has_model_attr h
                  \<and> e = InvalidArchitecture)))
   \<or> (\<exists>h. load eng k (load_calls s k) = Inr h \<and> has_model_attr h
        \<and> do_load eng k s =
            Inr (s\<lparr>load_calls := (load_calls s)(k := Suc (load_calls s k)),
                   models := AList.update k h (models s)\<rparr>))"
  by (cases "load eng k (load_calls s k)") (auto simp: do_load_def load_failed_def Let_def)

lemma finish_loading_fields:
  "models (finish_loading eng cfg k st s) = models s"
  "model_status (finish_loading eng cfg k st s) = (model_status s)(k \<mapsto> READY)"
  "embedding_cache (finish_loading eng cfg k st s) = embedding_cache s"
  "load_calls (finish_loading eng cfg k st s) = load_calls s"
  "locks (finish_loading eng cfg k st s) = locks s"
  "clock_reads (finish_loading eng cfg k st s) = Suc (Suc (clock_reads s))"
  "last_used (finish_loading eng cfg k st s) =
     AList.update k (clock eng (Suc (clock_reads s))) (last_used s)"
  by (simp_all add: finish_loading_def Let_def case_prod_beta time_time_def
      update_last_used_def warmup_frame)

lemma load_model_Inr:
  assumes "load_model eng cfg i s = (Inr k, s')"
  shows "resolve_model_name cfg i = Inr k"
    and "ready_now s k \<Longrightarrow> s' = s"
    and "\<not> ready_now s k \<Longrightarrow>
           \<exists>h. load eng k (load_calls s k) = Inr h \<and> has_model_attr h
             \<and> s' = finish_loading eng cfg k (clock eng (clock_reads s))
                     ((pre_load eng k s)\<lparr>load_calls := (load_calls s)(k := Suc (load_calls s k)),
                        models := AList.update k h (models (pre_load eng k s))\<rparr>)"
proof -
  obtain k' where r: "resolve_model_name cfg i = Inr k'"
    using assms by (cases "resolve_model_name cfg i") (auto simp: load_model_unresolved)
  have k: "k' = k"
  proof (cases "ready_now s k'")
    case True
    with r assms show ?thesis by (simp add: load_model_ready)
  next
    case False
    with r assms show ?thesis
      using do_load_cases [of eng k' "pre_load eng k' s"]
      by (auto simp: load_model_not_ready)
  qed
  with r show "resolve_model_name cfg i = Inr k" by simp
  show "ready_now s k \<Longrightarrow> s' = s"
    using r k assms by (simp add: load_model_ready)
  show "\<exists>h. load eng k (load_calls s k) = Inr h \<and> has_model_attr h
             \<and> s' = finish_loading eng cfg k (clock eng (clock_reads s))
                     ((pre_load eng k s)\<lparr>load_calls := (load_calls s)(k := Suc (load_calls s k)),
                        models := AList.update k h (models (pre_load eng k s))\<rparr>)"
    if "\<not> ready_now s k"
    using that r k assms do_load_cases [of eng k "pre_load eng k s"]
    by (auto simp: load_model_not_ready pre_load_fields)
qed

lemma load_model_Inr_fields:
  assumes "load_model eng cfg i s = (Inr k, s')" and "\<not> ready_now s k"
  shows "\<exists>h. load eng k (load_calls s k) = Inr h \<and> has_model_attr h \<and>
           models s' =
             AList.update k h
               (case victim k (models s) of None \<Rightarrow> models s | Some v \<Rightarrow> AList.delete v (models s))"
    and "model_status s' =
           (case victim k (models s) of
              None \<Rightarrow> (model_status s)(k \<mapsto> READY)
            | Some v \<Rightarrow> (model_status s)(v \<mapsto> UNLOADED, k \<mapsto> READY))"
proof -
  from load_model_Inr(3) [OF assms] obtain h where
    h: "load eng k (load_calls s k) = Inr h" "has_model_attr h"
    and s': "s' = finish_loading eng cfg k (clock eng (clock_reads s))
                     ((pre_load eng k s)\<lparr>load_calls := (load_calls s)(k := Suc (load_calls s k)),
                        models := AList.update k h (models (pre_load eng k s))\<rparr>)"
    by blast
  from h s' show "\<exists>h. load eng k (load_calls s k) = Inr h \<and> has_model_attr h \<and>
           models s' =
             AList.update k h
               (case victim k (models s) of None \<Rightarrow> models s | Some v \<Rightarrow> AList.delete v (models s))"
    by (simp add: finish_loading_fields pre_load_fields)
  show "model_status s' =
           (case victim k (models s) of
              None \<Rightarrow> (model_status s)(k \<mapsto> READY)
            | Some v \<Rightarrow> (model_status s)(v \<mapsto> UNLOADED, k \<mapsto> READY))"
    unfolding s'
    by (auto simp: finish_loading_fields pre_load_fields fun_upd_twist split: option.splits
        dest: victim_SomeD)
qed

lemma load_model_succeeds:
  assumes "resolve_model_name cfg i = Inr k"
    and "load eng k (load_calls s k) = Inr h" and "has_model_attr h"
  shows "fst (load_model eng cfg i s) = Inr k"
proof (cases "ready_now s k")
  case True
  with assms(1) show ?thesis by (simp add: load_model_ready)
next
  case False
  with assms show ?thesis
    using do_load_cases [of eng k "pre_load eng k s"]
    by (auto simp: load_model_not_ready pre_load_fields)
qed

lemma MODEL_ALIASES_eval:
  "MODEL_ALIASES =
     [(''small'', ''mlx-community/Qwen3-Embedding-0.6B-4bit-DWQ''),
      (''0.6b'', ''mlx-community/Qwen3-Embedding-0.6B-4bit-DWQ''),
      (''default'', ''mlx-community/Qwen3-Embedding-0.6B-4bit-DWQ''),
      (''medium'', ''mlx-community/Qwen3-Embedding-4B-4bit-DWQ''),
      (''4b'', ''mlx-community/Qwen3-Embedding-4B-4bit-DWQ''),
      (''large'', ''mlx-community/Qwen3-Embedding-8B-4bit-DWQ''),
      (''8b'', ''mlx-community/Qwen3-Embedding-8B-4bit-DWQ''),
      (''embeddinggemma'', ''mlx-community/embeddinggemma-300m-4bit''),
      (''gemma'', ''mlx-community/embeddinggemma-300m-4bit''),
      (''gemma-300m'', ''mlx-community/embeddinggemma-300m-4bit'')]"
  by (simp add: MODEL_ALIASES_def build_aliases_def AVAILABLE_MODELS_def lower_char_def)

lemma resolve_small:
  "resolve_model_name cfg (Some ''small'') = Inr ''mlx-community/Qwen3-Embedding-0.6B-4bit-DWQ''"
  by (simp add: resolve_model_name_def MODEL_ALIASES_eval lower_char_def)

lemma resolve_medium:
  "resolve_model_name cfg (Some ''medium'') = Inr ''mlx-community/Qwen3-Embedding-4B-4bit-DWQ''"
  by (simp add: resolve_model_name_def MODEL_ALIASES_eval lower_char_def)

lemma resolve_large:
  "resolve_model_name cfg (Some ''large'') = Inr ''mlx-community/Qwen3-Embedding-8B-4bit-DWQ''"
  by (simp add: resolve_model_name_def MODEL_ALIASES_eval lower_char_def)

lemma demo_load: "load demo_engine k n = Inr (Handle n True)"
  by (simp add: demo_engine_def)

lemma load_model_cases:
  assumes "resolve_model_name cfg i = Inr k"
  shows "(ready_now s k \<and> load_model eng cfg i s = (Inr k, s))
       \<or> (\<not> ready_now s k \<and> (\<exists>e. load_outcome eng k (load_calls s k) = Inl e
             \<and> load_model eng cfg i s = (Inl (ModelLoadingFailed e), failed_state eng k s)))
       \<or> (\<not> ready_now s k \<and> (\<exists>h. load_outcome eng k (load_calls s k) = Inr h
             \<and> load_model eng cfg i s = (Inr k, loaded_state eng cfg k h s)))"
proof (cases "ready_now s k")
  case True
  with assms show ?thesis by (simp add: load_model_ready)
next
  case False
  have pl: "load_calls (pre_load eng k s) = load_calls s"
    by (simp add: pre_load_fields)
  show ?thesis
  proof (cases "load eng k (load_calls s k)")
    case (Inl e)
    with False assms pl show ?thesis
      by (simp add: load_model_not_ready do_load_def load_failed_def load_outcome_def
          failed_state_def Let_def)
  next
    case (Inr h)
    with False assms pl show ?thesis
      by (simp add: load_model_not_ready do_load_def load_failed_def load_outcome_def
          failed_state_def loaded_state_def Let_def)
  qed
qed

lemma failed_state_fields:
  "models (failed_state eng k s) =
     (case victim k (models s) of None \<Rightarrow> models s | Some v \<Rightarrow> AList.delete v (models s))"
  "model_status (failed_state eng k s) =
     (case victim k (models s) of
        None \<Rightarrow> (model_status s)(k \<mapsto> ERROR)
      | Some v \<Rightarrow> (model_status s)(v \<mapsto> UNLOADED, k \<mapsto> ERROR))"
  "embedding_cache (failed_state eng k s) =
     (case victim k (models s) of
        None \<Rightarrow> embedding_cache s
      | Some v \<Rightarrow> filter (\<lambda>(key, e). \<not> prefix (v @ '':'') key) (embedding_cache s))"
  "last_used (failed_state eng k s) = last_used s"
  "load_calls (failed_state eng k s) = (load_calls s)(k := Suc (load_calls s k))"
  "forward_calls (failed_state eng k s) = forward_calls s"
  "clock_reads (failed_state eng k s) = Suc (clock_reads s)"
  by (auto simp: failed_state_def pre_load_fields split: option.splits dest: victim_SomeD)

lemma forward_calls_warmup_texts:
  "forward_calls s \<le> forward_calls (warmup_texts eng cfg h ts s)"
proof (induction ts arbitrary: s)
  case Nil
  then show ?case by simp
next
  case (Cons t ts)
  have "forward_calls s \<le> forward_calls (warmup_texts eng cfg h ts (s\<lparr>forward_calls := Suc (forward_calls s)\<rparr>))"
    using Cons.IH [of "s\<lparr>forward_calls := Suc (forward_calls s)\<rparr>"] by simp
  then show ?case
    by (simp add: Let_def split: sum.splits)
qed

lemma forward_calls_warmup: "forward_calls s \<le> forward_calls (warmup eng cfg k s)"
  by (simp add: warmup_def forward_calls_warmup_texts del: warmup_texts.simps split: option.splits)

lemma forward_calls_finish_loading:
  "forward_calls s \<le> forward_calls (finish_loading eng cfg k st s)"
  by (simp add: finish_loading_def Let_def case_prod_beta time_time_def update_last_used_def
      forward_calls_warmup)

lemma loaded_state_fields:
  "models (loaded_state eng cfg k h s) =
     AList.update k h
       (case victim k (models s) of None \<Rightarrow> models s | Some v \<Rightarrow> AList.delete v (models s))"
  "model_status (loaded_state eng cfg k h s) =
     (case victim k (models s) of
        None \<Rightarrow> (model_status s)(k \<mapsto> READY)
      | Some v \<Rightarrow> (model_status s)(v \<mapsto> UNLOADED, k \<mapsto> READY))"
  "embedding_cache (loaded_state eng cfg k h s) =
     (case victim k (models s) of
        None \<Rightarrow> embedding_cache s
      | Some v \<Rightarrow> filter (\<lambda>(key, e). \<not> prefix (v @ '':'') key) (embedding_cache s))"
  "last_used (loaded_state eng cfg k h s) =
     AList.update k (clock eng (Suc (Suc (clock_reads s)))) (last_used s)"
  "load_calls (loaded_state eng cfg k h s) = (load_calls s)(k := Suc (load_calls s k))"
  "clock_reads (loaded_state eng cfg k h s) = Suc (Suc (Suc (clock_reads s)))"
  by (auto simp: loaded_state_def finish_loading_fields pre_load_fields fun_upd_twist
      split: option.splits dest: victim_SomeD)

lemma forward_calls_loaded_state:
  "forward_calls s \<le> forward_calls (loaded_state eng cfg k h s)"
proof -
  have "forward_calls ((pre_load eng k s)
          \<lparr>load_calls := (load_calls s)(k := Suc (load_calls s k)),
           models := AList.update k h (models (pre_load eng k s))\<rparr>) = forward_calls s"
    by (simp add: pre_load_fields)
  then show ?thesis
    unfolding loaded_state_def
    using forward_calls_finish_loading le_trans by metis
qed

lemma embed_texts_frame:
  "models (snd (embed_texts eng cfg k h n ts acc s)) = models s"
  "model_status (snd (embed_texts eng cfg k h n ts acc s)) = model_status s"
  "last_used (snd (embed_texts eng cfg k h n ts acc s)) = last_used s"
  "load_calls (snd (embed_texts eng cfg k h n ts acc s)) = load_calls s"
  "clock_reads (snd (embed_texts eng cfg k h n ts acc s)) = clock_reads s"
  by (induction ts arbitrary: acc s;
      simp add: Let_def cache_put_def split: sum.splits option.splits)+

lemma resident_ready_iff:
  "resident_ready s \<longleftrightarrow> (\<forall>k. is_resident s k \<longrightarrow> model_status s k = Some READY)"
proof -
  have "is_resident s k \<longleftrightarrow> k \<in> fst ` set (models s)" for k
    by (simp add: is_resident_def map_of_eq_None_iff)
  then show ?thesis
    by (force simp: resident_ready_def list_all_iff)
qed

lemma is_resident_unload_model:
  "is_resident (unload_model v s) k \<longleftrightarrow> is_resident s k \<and> k \<noteq> v"
  by (auto simp: is_resident_def models_unload_model AList.delete_conv)

lemma is_resident_failed_state:
  "is_resident (failed_state eng k' s) k \<longleftrightarrow>
     is_resident s k \<and> victim k' (models s) \<noteq> Some k"
  by (auto simp: is_resident_def failed_state_fields AList.delete_conv split: option.splits)

lemma is_resident_loaded_state:
  "is_resident (loaded_state eng cfg k' h s) k \<longleftrightarrow>
     k = k' \<or> (is_resident s k \<and> victim k' (models s) \<noteq> Some k)"
  by (auto simp: is_resident_def loaded_state_fields AList.update_conv' AList.delete_conv
      split: option.splits)

lemma victim_resident: "victim k' (models s) = Some v \<Longrightarrow> is_resident s v \<and> v \<noteq> k'"
  by (auto simp: is_resident_def dest: victim_SomeD)

lemma generate_embeddings_state_rule:
  assumes l: "P (snd (load_model eng cfg i s))"
    and u: "\<And>k s1. P s1 \<Longrightarrow> P (update_last_used eng k s1)"
    and e: "\<And>k h s2. P s2 \<Longrightarrow> P (snd (embed_texts eng cfg k h n texts [] s2))"
  shows "P (snd (generate_embeddings eng cfg texts i n s))"
proof (cases "load_model eng cfg i s")
  case (Pair r s1)
  with l have p1: "P s1" by simp
  show ?thesis
  proof (cases r)
    case (Inl err)
    with Pair p1 show ?thesis by (simp add: generate_embeddings_def)
  next
    case (Inr k)
    define s2 where "s2 = update_last_used eng k s1"
    have p2: "P s2" unfolding s2_def using p1 by (rule u)
    have g: "generate_embeddings eng cfg texts i n s =
        (if model_status s2 k \<noteq> Some READY then (Inl (ModelNotReady k), s2)
          else if texts = [] then
            (case map_of AVAILABLE_MODELS k of
               None \<Rightarrow> (Inl (KeyError k), s2)
             | Some info \<Rightarrow> (Inr ([], k, embedding_dim info), s2))
          else
            (case map_of (models s2) k of
               None \<Rightarrow> (Inl (KeyError k), s2)
             | Some h \<Rightarrow>
                 (case map_of AVAILABLE_MODELS k of
                    None \<Rightarrow> (Inl (KeyError k), s2)
                  | Some info \<Rightarrow>
                      (case embed_texts eng cfg k h n texts [] s2 of
                         (Inl e, s3) \<Rightarrow> (Inl e, s3)
                       | (Inr embeddings, s3) \<Rightarrow>
                           if homogeneous embeddings
                           then (Inr (embeddings, k, embedding_dim info), s3)
                           else (Inl InhomogeneousShape, s3)))))"
      using Pair Inr unfolding s2_def by (simp add: generate_embeddings_def Let_def)
    show ?thesis
    proof (cases "model_status s2 k \<noteq> Some READY \<or> texts = [] \<or> map_of (models s2) k = None
        \<or> map_of AVAILABLE_MODELS k = None")
      case True
      then have "snd (generate_embeddings eng cfg texts i n s) = s2"
        unfolding g by (auto split: option.splits)
      with p2 show ?thesis by simp
    next
      case False
      then obtain h info where h: "map_of (models s2) k = Some h"
        and info: "map_of AVAILABLE_MODELS k = Some info" by auto
      have "snd (generate_embeddings eng cfg texts i n s)
          = snd (embed_texts eng cfg k h n texts [] s2)"
        unfolding g using False h info
        by (cases "embed_texts eng cfg k h n texts [] s2"; cases "fst (embed_texts eng cfg k h n texts [] s2)")
          auto
      with e [OF p2, of k h] show ?thesis by simp
    qed
  qed
qed

lemma resident_ready_cong:
  "models s' = models s \<Longrightarrow> model_status s' = model_status s \<Longrightarrow>
     resident_ready s' = resident_ready s"
  by (simp add: resident_ready_def)

lemma manager_inv_cong:
  "models s' = models s \<Longrightarrow> model_status s' = model_status s \<Longrightarrow>
     manager_inv s' = manager_inv s"
  by (simp add: manager_inv_def resident_ready_def)

lemma resident_ready_unload_model:
  "resident_ready s \<Longrightarrow> resident_ready (unload_model v s)"
  by (auto simp: resident_ready_iff is_resident_unload_model model_status_unload_model)

lemma manager_inv_unload_model:
  assumes "manager_inv s"
  shows "manager_inv (unload_model v s)"
proof -
  have "length (AList.delete v (models s)) \<le> length (models s)"
    by (rule AList.length_delete_le)
  moreover have "distinct (map fst (AList.delete v (models s)))"
    using assms by (simp add: manager_inv_def AList.distinct_delete)
  ultimately show ?thesis
    using assms
    by (simp add: manager_inv_def models_unload_model resident_ready_unload_model)
qed

lemma not_ready_not_resident:
  "resident_ready s \<Longrightarrow> \<not> ready_now s k \<Longrightarrow> \<not> is_resident s k"
  by (auto simp: resident_ready_iff ready_now_def)

lemma victim_hd:
  assumes "\<not> is_resident s k"
  shows "victim k (models s) =
           (if length (models s) \<ge> max_loaded_models then Some (fst (hd (models s))) else None)"
proof -
  from assms have "k \<notin> set (map fst (models s))"
    by (simp add: is_resident_def map_of_eq_None_iff)
  then have f: "filter (\<lambda>m. m \<noteq> k) (map fst (models s)) = map fst (models s)"
    by (auto simp: filter_id_conv)
  show ?thesis
    unfolding victim_def f
    by (cases "models s") (auto simp: max_loaded_models_def)
qed

lemma pre_models_inv:
  assumes "manager_inv s" and "\<not> is_resident s k"
  shows "length (case victim k (models s) of None \<Rightarrow> models s
                 | Some v \<Rightarrow> AList.delete v (models s)) < max_loaded_models"
    and "distinct (map fst (case victim k (models s) of None \<Rightarrow> models s
                 | Some v \<Rightarrow> AList.delete v (models s)))"
    and "map_of (case victim k (models s) of None \<Rightarrow> models s
                 | Some v \<Rightarrow> AList.delete v (models s)) k = None"
proof -
  from assms(1) have len: "length (models s) \<le> max_loaded_models"
    and dist: "distinct (map fst (models s))"
    by (simp_all add: manager_inv_def)
  show "length (case victim k (models s) of None \<Rightarrow> models s
                 | Some v \<Rightarrow> AList.delete v (models s)) < max_loaded_models"
  proof (cases "models s")
    case Nil
    then show ?thesis by (simp add: victim_def max_loaded_models_def)
  next
    case (Cons p ps)
    then have "length (AList.delete (fst p) (models s)) < length (models s)"
      by (cases p) (auto simp: AList.delete_eq intro: le_imp_less_Suc length_filter_le)
    with len Cons show ?thesis
      using victim_hd [OF assms(2)] by (auto split: option.splits)
  qed
  show "distinct (map fst (case victim k (models s) of None \<Rightarrow> models s
                 | Some v \<Rightarrow> AList.delete v (models s)))"
    using dist by (simp add: AList.distinct_delete split: option.splits)
  show "map_of (case victim k (models s) of None \<Rightarrow> models s
                 | Some v \<Rightarrow> AList.delete v (models s)) k = None"
    using assms(2) by (auto simp: is_resident_def AList.delete_conv split: option.splits)
qed

lemma length_update_absent:
  "map_of al k = None \<Longrightarrow> length (AList.update k v al) = Suc (length al)"
  by (induction al) (auto split: if_splits)

lemma resident_ready_failed_state:
  assumes "resident_ready s" and "\<not> ready_now s k"
  shows "resident_ready (failed_state eng k s)"
proof -
  from assms have nk: "\<not> is_resident s k" by (rule not_ready_not_resident)
  show ?thesis
    unfolding resident_ready_iff
  proof (intro allI impI)
    fix x assume r: "is_resident (failed_state eng k s) x"
    then have rx: "is_resident s x" and vx: "victim k (models s) \<noteq> Some x"
      by (simp_all add: is_resident_failed_state)
    from rx nk have "x \<noteq> k" by auto
    moreover from rx assms(1) have "model_status s x = Some READY"
      by (simp add: resident_ready_iff)
    ultimately show "model_status (failed_state eng k s) x = Some READY"
      using vx by (auto simp: failed_state_fields split: option.splits)
  qed
qed

lemma resident_ready_loaded_state:
  assumes "resident_ready s"
  shows "resident_ready (loaded_state eng cfg k h s)"
  unfolding resident_ready_iff
proof (intro allI impI)
  fix x assume r: "is_resident (loaded_state eng cfg k h s) x"
  show "model_status (loaded_state eng cfg k h s) x = Some READY"
  proof (cases "x = k")
    case True
    then show ?thesis by (auto simp: loaded_state_fields split: option.splits)
  next
    case False
    with r have rx: "is_resident s x" and vx: "victim k (models s) \<noteq> Some x"
      by (simp_all add: is_resident_loaded_state)
    from rx assms have "model_status s x = Some READY"
      by (simp add: resident_ready_iff)
    with False vx show ?thesis
      by (auto simp: loaded_state_fields split: option.splits)
  qed
qed

lemma manager_inv_failed_state:
  assumes "manager_inv s" and "\<not> ready_now s k"
  shows "manager_inv (failed_state eng k s)"
proof -
  from assms have "resident_ready s" by (simp add: manager_inv_def)
  then have nk: "\<not> is_resident s k"
    using assms(2) by (rule not_ready_not_resident)
  from pre_models_inv [OF assms(1) nk] assms show ?thesis
    by (simp add: manager_inv_def failed_state_fields resident_ready_failed_state)
qed

lemma manager_inv_loaded_state:
  assumes "manager_inv s" and "\<not> ready_now s k"
  shows "manager_inv (loaded_state eng cfg k h s)"
proof -
  from assms have "resident_ready s" by (simp add: manager_inv_def)
  then have nk: "\<not> is_resident s k"
    using assms(2) by (rule not_ready_not_resident)
  from pre_models_inv [OF assms(1) nk] assms show ?thesis
    by (simp add: manager_inv_def loaded_state_fields resident_ready_loaded_state
        length_update_absent AList.distinct_update)
qed

lemma manager_inv_load_model:
  assumes "manager_inv s"
  shows "manager_inv (snd (load_model eng cfg i s))"
proof (cases "resolve_model_name cfg i")
  case (Inl e)
  with assms show ?thesis by (simp add: load_model_unresolved)
next
  case (Inr k)
  from load_model_cases [OF Inr, of s eng] assms show ?thesis
    by (auto simp: manager_inv_failed_state manager_inv_loaded_state)
qed

lemma manager_inv_generate_embeddings:
  assumes "manager_inv s"
  shows "manager_inv (snd (generate_embeddings eng cfg texts i n s))"
proof (rule generate_embeddings_state_rule [where P = manager_inv])
  show "manager_inv (snd (load_model eng cfg i s))"
    using assms by (rule manager_inv_load_model)
  show "manager_inv (update_last_used eng k s1)" if "manager_inv s1" for k s1
  proof -
    have "manager_inv (update_last_used eng k s1) = manager_inv s1"
      by (rule manager_inv_cong) (simp_all add: update_last_used_frame)
    with that show ?thesis by simp
  qed
  show "manager_inv (snd (embed_texts eng cfg k h n texts [] s2))" if "manager_inv s2" for k h s2
  proof -
    have "manager_inv (snd (embed_texts eng cfg k h n texts [] s2)) = manager_inv s2"
      by (rule manager_inv_cong) (simp_all add: embed_texts_frame)
    with that show ?thesis by simp
  qed
qed

lemma manager_inv_unload_idle:
  "manager_inv s \<Longrightarrow> manager_inv (unload_idle xs s)"
proof (induction xs arbitrary: s)
  case Nil
  then show ?case by simp
next
  case (Cons x xs)
  obtain name idle where x: "x = (name, idle)" by (cases x)
  define s1 where "s1 = unload_model name s"
  define s2 where "s2 = s1\<lparr>last_used := AList.delete name (last_used s1)\<rparr>"
  have u: "manager_inv s1"
    unfolding s1_def using Cons.prems by (rule manager_inv_unload_model)
  then have "manager_inv s2"
    by (simp add: manager_inv_def resident_ready_def s2_def)
  then have "manager_inv (unload_idle xs s2)"
    by (rule Cons.IH)
  moreover have "unload_idle (x # xs) s =
      (if map_of (last_used s1) name = None then s1 else unload_idle xs s2)"
    by (simp add: x s1_def s2_def Let_def)
  ultimately show ?case
    using u by simp
qed

lemma get_status_state:
  "snd (get_status eng cfg i s) = s \<or> snd (get_status eng cfg i s) = snd (time_time eng s)"
proof (cases "i \<noteq> None \<and> i \<noteq> Some []")
  case True
  then have "snd (get_status eng cfg i s) = s"
    unfolding get_status_def
    by (simp split: sum.splits option.splits)
  then show ?thesis ..
next
  case False
  then have "snd (get_status eng cfg i s) = snd (time_time eng s)"
    unfolding get_status_def
    by (auto simp: case_prod_beta Let_def split: sum.splits)
  then show ?thesis ..
qed

lemma manager_inv_time_time: "manager_inv (snd (time_time eng s)) = manager_inv s"
  by (rule manager_inv_cong) (simp_all add: time_time_frame)

lemma manager_inv_serve:
  assumes "manager_inv s"
  shows "manager_inv (serve eng cfg r s)"
proof (cases r)
  case (Embed texts i n)
  with assms show ?thesis by (simp add: manager_inv_generate_embeddings)
next
  case (Load i)
  with assms show ?thesis by (simp add: manager_inv_load_model)
next
  case (Status i)
  have "manager_inv (snd (get_status eng cfg i s))"
    using get_status_state [of eng cfg i s]
  proof
    assume "snd (get_status eng cfg i s) = s"
    with assms show ?thesis by (simp only:)
  next
    assume "snd (get_status eng cfg i s) = snd (time_time eng s)"
    with assms show ?thesis by (simp only: manager_inv_time_time)
  qed
  with Status show ?thesis by simp
next
  case Tick
  have "manager_inv (unload_idle xs (snd (time_time eng s)))" for xs
    using assms by (intro manager_inv_unload_idle) (simp add: manager_inv_time_time)
  then show ?thesis
    using Tick assms by (simp add: ttl_checker_tick_def case_prod_beta)
qed

lemma manager_inv_serve_all:
  "manager_inv s \<Longrightarrow> manager_inv (serve_all eng cfg reqs s)"
  unfolding serve_all_def
  by (induction reqs arbitrary: s) (simp_all add: manager_inv_serve)

lemma manager_inv_init: "manager_inv init_manager"
  by (simp add: manager_inv_def resident_ready_def init_manager_def max_loaded_models_def)

lemma is_resident_keys: "is_resident s k \<longleftrightarrow> k \<in> set (map fst (models s))"
  by (simp add: is_resident_def map_of_eq_None_iff)

lemma keys_update_absent:
  "map_of al k = None \<Longrightarrow> map fst (AList.update k v al) = map fst al @ [k]"
  by (induction al) (auto split: if_splits)

lemma keys_delete_hd:
  assumes "distinct (map fst al)" and "al \<noteq> []"
  shows "map fst (AList.delete (fst (hd al)) al) = tl (map fst al)"
proof (cases al)
  case Nil
  with assms show ?thesis by simp
next
  case (Cons p ps)
  obtain a b where p: "p = (a, b)" by (cases p)
  from assms Cons p have "a \<notin> fst ` set ps" by auto
  then have "AList.delete a ps = ps" by (rule AList.delete_id)
  with Cons p show ?thesis by (simp add: AList.delete_eq)
qed

lemma ready_now_load_model:
  assumes "load_model eng cfg i s = (Inr k, s')"
  shows "ready_now s' k"
proof -
  have r: "resolve_model_name cfg i = Inr k"
    using assms by (rule load_model_Inr(1))
  from load_model_cases [OF r, of s eng] assms show ?thesis
    by (auto simp: ready_now_def is_resident_loaded_state loaded_state_fields
        split: option.splits)
qed

text \<open>What a successful \<^verbatim>\<open>load_model\<close> does to the resident models, in a state that
  satisfies the invariant.\<close>

lemma load_model_step:
  assumes inv: "manager_inv s" and l: "load_model eng cfg i s = (Inr k, s')"
  shows "manager_inv s'"
    and "ready_now s' k"
    and "(is_resident s k \<and> s' = s)
       \<or> (\<not> is_resident s k
           \<and> map fst (models s') =
               (if length (models s) \<ge> max_loaded_models then tl (map fst (models s))
                else map fst (models s)) @ [k]
           \<and> model_status s' =
               (if length (models s) \<ge> max_loaded_models
                then (model_status s)(hd (map fst (models s)) \<mapsto> UNLOADED, k \<mapsto> READY)
                else (model_status s)(k \<mapsto> READY)))"
proof -
  from l have r: "resolve_model_name cfg i = Inr k" by (rule load_model_Inr(1))
  from inv have rr: "resident_ready s" and dist: "distinct (map fst (models s))"
    by (simp_all add: manager_inv_def)
  show "manager_inv s'"
    using manager_inv_load_model [OF inv, of eng cfg i] l by simp
  show "ready_now s' k"
    using l by (rule ready_now_load_model)
  show "(is_resident s k \<and> s' = s)
       \<or> (\<not> is_resident s k
           \<and> map fst (models s') =
               (if length (models s) \<ge> max_loaded_models then tl (map fst (models s))
                else map fst (models s)) @ [k]
           \<and> model_status s' =
               (if length (models s) \<ge> max_loaded_models
                then (model_status s)(hd (map fst (models s)) \<mapsto> UNLOADED, k \<mapsto> READY)
                else (model_status s)(k \<mapsto> READY)))"
  proof (cases "ready_now s k")
    case True
    with r l have "s' = s" by (simp add: load_model_ready)
    with True show ?thesis by (simp add: ready_now_def)
  next
    case False
    with rr have nk: "\<not> is_resident s k" by (rule not_ready_not_resident)
    from load_model_cases [OF r, of s eng] False l
    obtain h where s': "s' = loaded_state eng cfg k h s" by auto
    have v: "victim k (models s) =
        (if length (models s) \<ge> max_loaded_models then Some (fst (hd (models s))) else None)"
      using nk by (rule victim_hd)
    have ne: "models s \<noteq> []" if "length (models s) \<ge> max_loaded_models"
      using that by (auto simp: max_loaded_models_def)
    have absent: "map_of (case victim k (models s) of None \<Rightarrow> models s
                 | Some v \<Rightarrow> AList.delete v (models s)) k = None"
      using pre_models_inv(3) [OF inv nk] .
    have keys: "map fst (models s') =
               (if length (models s) \<ge> max_loaded_models then tl (map fst (models s))
                else map fst (models s)) @ [k]"
      unfolding s' loaded_state_fields keys_update_absent [OF absent]
      using v keys_delete_hd [OF dist] ne by auto
    have st: "model_status s' =
               (if length (models s) \<ge> max_loaded_models
                then (model_status s)(hd (map fst (models s)) \<mapsto> UNLOADED, k \<mapsto> READY)
                else (model_status s)(k \<mapsto> READY))"
      unfolding s' loaded_state_fields using v ne by (auto simp: hd_map)
    from nk keys st show ?thesis by simp
  qed
qed

lemma short_list_cases:
  assumes "length xs \<le> 2"
  obtains "xs = []" | x where "xs = [x]" | x y where "xs = [x, y]"
proof (cases xs)
  case Nil
  then show ?thesis using that(1) by simp
next
  case (Cons x ys)
  show ?thesis
  proof (cases ys)
    case Nil
    with Cons show ?thesis using that(2) by simp
  next
    case (Cons y zs)
    with \<open>xs = x # ys\<close> assms have "xs = [x, y]" by simp
    then show ?thesis using that(3) by simp
  qed
qed

lemma load_absent_step:
  assumes "manager_inv s" and "load_model eng cfg i s = (Inr k, s')"
    and "k \<notin> set (map fst (models s))"
  shows "map fst (models s') =
           (if length (models s) \<ge> 2 then tl (map fst (models s)) else map fst (models s)) @ [k]"
    and "model_status s' =
           (if length (models s) \<ge> 2
            then (model_status s)(hd (map fst (models s)) \<mapsto> UNLOADED, k \<mapsto> READY)
            else (model_status s)(k \<mapsto> READY))"
  using load_model_step(3) [OF assms(1,2)] assms(3)
  by (simp_all add: is_resident_keys max_loaded_models_def)

lemma load_present_step:
  assumes "manager_inv s" and "load_model eng cfg i s = (Inr k, s')"
    and "k \<in> set (map fst (models s))"
  shows "s' = s"
  using load_model_step(3) [OF assms(1,2)] assms(3)
  by (simp add: is_resident_keys)

lemma third_load_general:
  assumes inv: "manager_inv s0"
    and lA: "load_model eng cfg a s0 = (Inr A, s1)"
    and lB: "load_model eng cfg b s1 = (Inr B, s2)"
    and lC: "load_model eng cfg c s2 = (Inr C, s3)"
    and ne: "A \<noteq> B" "A \<noteq> C" "B \<noteq> C"
  shows "ready_now s3 C
       \<and> ((ready_now s3 B \<and> \<not> is_resident s3 A \<and> model_status s3 A = Some UNLOADED)
          \<or> (ready_now s3 A \<and> \<not> is_resident s3 B \<and> model_status s3 B = Some UNLOADED))"
proof -
  note sA = load_model_step [OF inv lA]
  note sB = load_model_step [OF sA(1) lB]
  note sC = load_model_step [OF sB(1) lC]
  from sA(1) have len1: "length (map fst (models s1)) \<le> 2"
    and d1: "distinct (map fst (models s1))"
    by (simp_all add: manager_inv_def max_loaded_models_def)
  from sB(1) have rr2: "resident_ready s2" by (simp add: manager_inv_def)
  from sC(1) have rr3: "resident_ready s3" by (simp add: manager_inv_def)
  have A1: "A \<in> set (map fst (models s1))"
    using sA(2) by (simp add: ready_now_def is_resident_keys)
  have ready: "ready_now s x \<longleftrightarrow> x \<in> set (map fst (models s))" if "resident_ready s" for s x
    using that by (auto simp: ready_now_def resident_ready_iff is_resident_keys)
  have st2: "model_status s2 x = Some READY" if "x \<in> set (map fst (models s2))" for x
    using that rr2 by (simp add: resident_ready_iff is_resident_keys)
  have C3: "ready_now s3 C" by (rule sC(2))
  \<comment> \<open>the load of \<open>C\<close> when \<open>A\<close> and \<open>B\<close> are the two resident models\<close>
  have both: ?thesis if k: "map fst (models s2) = [x, y]" and xy: "{x, y} = {A, B}" "x \<noteq> y" for x y
  proof -
    have cn: "C \<notin> set (map fst (models s2))" using k xy ne by auto
    have l2: "length (models s2) \<ge> 2"
      using arg_cong [OF k, of length] by simp
    have k3: "map fst (models s3) = [y, C]"
      using load_absent_step(1) [OF sB(1) lC cn] l2 k by simp
    have s3: "model_status s3 = (model_status s2)(x \<mapsto> UNLOADED, C \<mapsto> READY)"
      using load_absent_step(2) [OF sB(1) lC cn] l2 k by simp
    have "ready_now s3 y" "\<not> is_resident s3 x" "model_status s3 x = Some UNLOADED"
      using k3 s3 xy ne by (auto simp: ready [OF rr3] is_resident_keys)
    with C3 xy show ?thesis by (auto simp: doubleton_eq_iff)
  qed
  \<comment> \<open>the load of \<open>C\<close> when the load of \<open>B\<close> has evicted \<open>A\<close>\<close>
  have gone: ?thesis if k: "map fst (models s2) = [x, B]" and x: "x \<noteq> A" "x \<noteq> B"
    and a: "model_status s2 A = Some UNLOADED" for x
  proof (cases "C = x")
    case True
    then have "C \<in> set (map fst (models s2))" using k by simp
    then have "s3 = s2" by (rule load_present_step [OF sB(1) lC])
    with k x a ne C3 show ?thesis
      by (simp add: ready [OF rr2] is_resident_keys)
  next
    case False
    then have cn: "C \<notin> set (map fst (models s2))" using k ne by auto
    have l2: "length (models s2) \<ge> 2"
      using arg_cong [OF k, of length] by simp
    have k3: "map fst (models s3) = [B, C]"
      using load_absent_step(1) [OF sB(1) lC cn] l2 k by simp
    have s3: "model_status s3 = (model_status s2)(x \<mapsto> UNLOADED, C \<mapsto> READY)"
      using load_absent_step(2) [OF sB(1) lC cn] l2 k by simp
    have "ready_now s3 B" "\<not> is_resident s3 A" "model_status s3 A = Some UNLOADED"
      using k3 s3 x a ne by (auto simp: ready [OF rr3] is_resident_keys)
    with C3 show ?thesis by simp
  qed
  show ?thesis
  proof (cases "B \<in> set (map fst (models s1))")
    case True
    then have e: "s2 = s1" by (rule load_present_step [OF sA(1) lB])
    show ?thesis
    proof (rule short_list_cases [OF len1])
      assume "map fst (models s1) = []"
      with A1 show ?thesis by simp
    next
      fix x assume "map fst (models s1) = [x]"
      with A1 True ne show ?thesis by simp
    next
      fix x y assume k: "map fst (models s1) = [x, y]"
      with A1 True ne d1 have "{x, y} = {A, B}" "x \<noteq> y" by auto
      with k e show ?thesis by (intro both [of x y]) simp_all
    qed
  next
    case False
    note stepB = load_absent_step [OF sA(1) lB False]
    show ?thesis
    proof (rule short_list_cases [OF len1])
      assume "map fst (models s1) = []"
      with A1 show ?thesis by simp
    next
      fix x assume k: "map fst (models s1) = [x]"
      with A1 have "x = A" by simp
      moreover have "length (models s1) = 1"
        using arg_cong [OF k, of length] by simp
      ultimately have "map fst (models s2) = [A, B]"
        using k stepB(1) by simp
      then show ?thesis using ne by (intro both [of A B]) simp_all
    next
      fix x y assume k: "map fst (models s1) = [x, y]"
      have l1: "length (models s1) \<ge> 2"
        using arg_cong [OF k, of length] by simp
      have k2: "map fst (models s2) = [y, B]"
        using stepB(1) l1 k by simp
      have s2: "model_status s2 = (model_status s1)(x \<mapsto> UNLOADED, B \<mapsto> READY)"
        using stepB(2) l1 k by simp
      show ?thesis
      proof (cases "x = A")
        case True
        with k d1 have "y \<noteq> A" by auto
        moreover have "y \<noteq> B" using False k by auto
        moreover have "model_status s2 A = Some UNLOADED"
          using s2 True ne by simp
        ultimately show ?thesis using k2 by (intro gone [of y]) simp_all
      next
        case False
        with A1 k have "y = A" by simp
        with k2 ne show ?thesis by (intro both [of A B]) simp_all
      qed
    qed
  qed
qed

subsection \<open>Capacity eviction\<close>

text \<open>
  Claim C5. The embedding manager keeps at most two models resident
  (\<open>max_loaded_models = 2\<close>). In any state that the manager reaches from its initial
  state by serving requests, let three distinct keys \<open>A\<close>, \<open>B\<close>, \<open>C\<close> be loaded
  successfully one after the other. After the load of \<open>C\<close>, the key \<open>C\<close> is READY and
  exactly one of \<open>A\<close> and \<open>B\<close> has been evicted: it is no longer resident and its status is
  UNLOADED, while the other one is still resident and READY.
\<close>

theorem third_load_evicts_one:
  assumes "load_model eng cfg a (serve_all eng cfg reqs init_manager) = (Inr A, s1)"
    and "load_model eng cfg b s1 = (Inr B, s2)"
    and "load_model eng cfg c s2 = (Inr C, s3)"
    and "A \<noteq> B" and "A \<noteq> C" and "B \<noteq> C"
  shows "ready_now s3 C
       \<and> ((ready_now s3 B \<and> \<not> is_resident s3 A \<and> model_status s3 A = Some UNLOADED)
          \<or> (ready_now s3 A \<and> \<not> is_resident s3 B \<and> model_status s3 B = Some UNLOADED))"
proof -
  have "manager_inv (serve_all eng cfg reqs init_manager)"
    using manager_inv_init by (rule manager_inv_serve_all)
  then show ?thesis
    using assms by (rule third_load_general)
qed

theorem third_load_evicts_one_witness:
  "let s0 = serve_all demo_engine demo_config [Load (Some ''medium''), Load (Some ''small'')]
              init_manager;
       r1 = load_model demo_engine demo_config (Some ''small'') s0;
       r2 = load_model demo_engine demo_config (Some ''medium'') (snd r1);
       r3 = load_model demo_engine demo_config (Some ''large'') (snd r2);
       A = ''mlx-community/Qwen3-Embedding-0.6B-4bit-DWQ'';
       B = ''mlx-community/Qwen3-Embedding-4B-4bit-DWQ'';
       C = ''mlx-community/Qwen3-Embedding-8B-4bit-DWQ''
   in fst r1 = Inr A \<and> fst r2 = Inr B \<and> fst r3 = Inr C
      \<and> ready_now (snd r3) C
      \<and> ((ready_now (snd r3) B \<and> \<not> is_resident (snd r3) A
            \<and> model_status (snd r3) A = Some UNLOADED)
         \<or> (ready_now (snd r3) A \<and> \<not> is_resident (snd r3) B
            \<and> model_status (snd r3) B = Some UNLOADED))"
proof -
  define s0 where "s0 = serve_all demo_engine demo_config
      [Load (Some ''medium''), Load (Some ''small'')] init_manager"
  define r1 where "r1 = load_model demo_engine demo_config (Some ''small'') s0"
  define r2 where "r2 = load_model demo_engine demo_config (Some ''medium'') (snd r1)"
  define r3 where "r3 = load_model demo_engine demo_config (Some ''large'') (snd r2)"
  have f1: "fst r1 = Inr ''mlx-community/Qwen3-Embedding-0.6B-4bit-DWQ''"
    unfolding r1_def by (rule load_model_succeeds [OF resolve_small demo_load]) simp
  have f2: "fst r2 = Inr ''mlx-community/Qwen3-Embedding-4B-4bit-DWQ''"
    unfolding r2_def by (rule load_model_succeeds [OF resolve_medium demo_load]) simp
  have f3: "fst r3 = Inr ''mlx-community/Qwen3-Embedding-8B-4bit-DWQ''"
    unfolding r3_def by (rule load_model_succeeds [OF resolve_large demo_load]) simp
  have e1: "load_model demo_engine demo_config (Some ''small'')
              (serve_all demo_engine demo_config
                 [Load (Some ''medium''), Load (Some ''small'')] init_manager)
              = (Inr ''mlx-community/Qwen3-Embedding-0.6B-4bit-DWQ'', snd r1)"
    using f1 by (simp add: r1_def s0_def prod_eq_iff)
  have e2: "load_model demo_engine demo_config (Some ''medium'') (snd r1)
              = (Inr ''mlx-community/Qwen3-Embedding-4B-4bit-DWQ'', snd r2)"
    using f2 by (simp add: r2_def prod_eq_iff)
  have e3: "load_model demo_engine demo_config (Some ''large'') (snd r2)
              = (Inr ''mlx-community/Qwen3-Embedding-8B-4bit-DWQ'', snd r3)"
    using f3 by (simp add: r3_def prod_eq_iff)
  have "ready_now (snd r3) ''mlx-community/Qwen3-Embedding-8B-4bit-DWQ''
      \<and> ((ready_now (snd r3) ''mlx-community/Qwen3-Embedding-4B-4bit-DWQ''
            \<and> \<not> is_resident (snd r3) ''mlx-community/Qwen3-Embedding-0.6B-4bit-DWQ''
            \<and> model_status (snd r3) ''mlx-community/Qwen3-Embedding-0.6B-4bit-DWQ'' = Some UNLOADED)
         \<or> (ready_now (snd r3) ''mlx-community/Qwen3-Embedding-0.6B-4bit-DWQ''
            \<and> \<not> is_resident (snd r3) ''mlx-community/Qwen3-Embedding-4B-4bit-DWQ''
            \<and> model_status (snd r3) ''mlx-community/Qwen3-Embedding-4B-4bit-DWQ'' = Some UNLOADED))"
    by (rule third_load_evicts_one [OF e1 e2 e3]) simp_all
  with f1 f2 f3 show ?thesis
    unfolding Let_def r1_def r2_def r3_def s0_def by blast
qed

text \<open>The slot of a key that is not resident, as far as the claims need it.\<close>

lemma slot_is_cong:
  "models s' = models s \<Longrightarrow> model_status s' = model_status s \<Longrightarrow> load_calls s' = load_calls s
     \<Longrightarrow> slot_is k st n s' = slot_is k st n s"
  by (simp add: slot_is_def is_resident_def)

lemma slot_is_unload_model:
  assumes "slot_is k st n s"
  shows "slot_is k st n (unload_model v s)"
proof (cases "v = k")
  case True
  with assms show ?thesis by (simp add: slot_is_def unload_model_def)
next
  case False
  with assms show ?thesis
    by (simp add: slot_is_def is_resident_unload_model model_status_unload_model
        unload_model_frame)
qed

lemma slot_is_load_model:
  assumes "slot_is k st n s" and "resolve_model_name cfg i \<noteq> Inr k"
  shows "slot_is k st n (snd (load_model eng cfg i s))"
proof (cases "resolve_model_name cfg i")
  case (Inl e)
  with assms show ?thesis by (simp add: load_model_unresolved)
next
  case (Inr k')
  with assms have ne: "k' \<noteq> k" by simp
  from assms have nk: "\<not> is_resident s k" by (simp add: slot_is_def)
  have v: "victim k' (models s) \<noteq> Some k"
    using nk victim_resident [of k' s k] by auto
  have f: "slot_is k st n (failed_state eng k' s)"
    using assms(1) ne v
    by (auto simp: slot_is_def is_resident_failed_state failed_state_fields
        split: option.splits)
  have l: "slot_is k st n (loaded_state eng cfg k' h s)" for h
    using assms(1) ne v
    by (auto simp: slot_is_def is_resident_loaded_state loaded_state_fields
        split: option.splits)
  from load_model_cases [OF Inr, of s eng] assms(1) f l show ?thesis
    by auto
qed

lemma slot_is_generate_embeddings:
  assumes "slot_is k st n s" and "resolve_model_name cfg i \<noteq> Inr k"
  shows "slot_is k st n (snd (generate_embeddings eng cfg texts i nrm s))"
proof (rule generate_embeddings_state_rule [where P = "slot_is k st n"])
  show "slot_is k st n (snd (load_model eng cfg i s))"
    using assms by (rule slot_is_load_model)
  show "slot_is k st n (update_last_used eng k' s1)" if "slot_is k st n s1" for k' s1
  proof -
    have "slot_is k st n (update_last_used eng k' s1) = slot_is k st n s1"
      by (rule slot_is_cong) (simp_all add: update_last_used_frame)
    with that show ?thesis by simp
  qed
  show "slot_is k st n (snd (embed_texts eng cfg k' h nrm texts [] s2))"
    if "slot_is k st n s2" for k' h s2
  proof -
    have "slot_is k st n (snd (embed_texts eng cfg k' h nrm texts [] s2)) = slot_is k st n s2"
      by (rule slot_is_cong) (simp_all add: embed_texts_frame)
    with that show ?thesis by simp
  qed
qed

lemma slot_is_unload_idle:
  "slot_is k st n s \<Longrightarrow> slot_is k st n (unload_idle xs s)"
proof (induction xs arbitrary: s)
  case Nil
  then show ?case by simp
next
  case (Cons x xs)
  obtain name idle where x: "x = (name, idle)" by (cases x)
  define s1 where "s1 = unload_model name s"
  define s2 where "s2 = s1\<lparr>last_used := AList.delete name (last_used s1)\<rparr>"
  have u: "slot_is k st n s1"
    unfolding s1_def using Cons.prems by (rule slot_is_unload_model)
  then have "slot_is k st n s2"
    by (simp add: slot_is_def is_resident_def s2_def)
  then have "slot_is k st n (unload_idle xs s2)"
    by (rule Cons.IH)
  moreover have "unload_idle (x # xs) s =
      (if map_of (last_used s1) name = None then s1 else unload_idle xs s2)"
    by (simp add: x s1_def s2_def Let_def)
  ultimately show ?case
    using u by simp
qed

lemma slot_is_time_time: "slot_is k st n (snd (time_time eng s)) = slot_is k st n s"
  by (rule slot_is_cong) (simp_all add: time_time_frame)

lemma slot_is_serve:
  assumes "slot_is k st n s" and "request_key cfg r \<noteq> Some k"
  shows "slot_is k st n (serve eng cfg r s)"
proof (cases r)
  case (Embed texts i nrm)
  with assms(2) have "resolve_model_name cfg i \<noteq> Inr k"
    by (auto simp: request_key_def)
  with assms(1) Embed show ?thesis by (simp add: slot_is_generate_embeddings)
next
  case (Load i)
  with assms(2) have "resolve_model_name cfg i \<noteq> Inr k"
    by (auto simp: request_key_def)
  with assms(1) Load show ?thesis by (simp add: slot_is_load_model)
next
  case (Status i)
  have "slot_is k st n (snd (get_status eng cfg i s))"
    using get_status_state [of eng cfg i s]
  proof
    assume "snd (get_status eng cfg i s) = s"
    with assms show ?thesis by (simp only:)
  next
    assume "snd (get_status eng cfg i s) = snd (time_time eng s)"
    with assms show ?thesis by (simp only: slot_is_time_time)
  qed
  with Status show ?thesis by simp
next
  case Tick
  have "slot_is k st n (unload_idle xs (snd (time_time eng s)))" for xs
    using assms(1) by (intro slot_is_unload_idle) (simp add: slot_is_time_time)
  then show ?thesis
    using Tick assms(1) by (simp add: ttl_checker_tick_def case_prod_beta)
qed

lemma slot_is_serve_all:
  "slot_is k st n s \<Longrightarrow> \<forall>r \<in> set reqs. request_key cfg r \<noteq> Some k
     \<Longrightarrow> slot_is k st n (serve_all eng cfg reqs s)"
  unfolding serve_all_def
  by (induction reqs arbitrary: s) (simp_all add: slot_is_serve)

text \<open>An engine whose first load of every model fails.\<close>

lemma load_outcome_Inl:
  "load eng k n = Inl e \<Longrightarrow> load_outcome eng k n = Inl (EngineFailure e)"
  by (simp add: load_outcome_def)

lemma load_outcome_Inr:
  "load eng k n = Inr h \<Longrightarrow> has_model_attr h \<Longrightarrow> load_outcome eng k n = Inr h"
  by (simp add: load_outcome_def)

lemma load_model_fails:
  assumes "resolve_model_name cfg i = Inr k" and "\<not> ready_now s k"
    and "load eng k (load_calls s k) = Inl e"
  shows "load_model eng cfg i s =
           (Inl (ModelLoadingFailed (EngineFailure e)), failed_state eng k s)"
  using load_model_cases [OF assms(1), of s eng] assms(2) load_outcome_Inl [OF assms(3)]
  by auto

lemma load_model_loads:
  assumes "resolve_model_name cfg i = Inr k" and "\<not> ready_now s k"
    and "load eng k (load_calls s k) = Inr h" and "has_model_attr h"
  shows "load_model eng cfg i s = (Inr k, loaded_state eng cfg k h s)"
  using load_model_cases [OF assms(1), of s eng] assms(2) load_outcome_Inr [OF assms(3,4)]
  by auto

lemma load_calls_load_model_not_ready:
  assumes "resolve_model_name cfg i = Inr k" and "\<not> ready_now s k"
  shows "load_calls (snd (load_model eng cfg i s)) k = Suc (load_calls s k)"
  using load_model_cases [OF assms(1), of s eng] assms(2)
  by (auto simp: failed_state_fields loaded_state_fields)

lemma slot_is_failed_state:
  assumes "\<not> is_resident s k"
  shows "slot_is k (Some ERROR) (Suc (load_calls s k)) (failed_state eng k s)"
  using assms
  by (auto simp: slot_is_def is_resident_failed_state failed_state_fields split: option.splits)

subsection \<open>Failed loads\<close>

text \<open>
  Claim C3. Let the manager be in a state that it reaches from its initial state by
  serving requests, let \<open>k\<close> be the key that the identifier resolves to, not READY, and let
  the underlying \<^verbatim>\<open>load\<close> fail with the exception \<open>e\<close>. Then \<^verbatim>\<open>load_model\<close> raises the load
  failure that wraps \<open>e\<close>; afterwards the status of \<open>k\<close> is ERROR and no handle is stored
  for \<open>k\<close>; \<^verbatim>\<open>load\<close> has been called exactly once for \<open>k\<close> (no retry). Whatever requests
  follow that do not ask for \<open>k\<close> (requests for other keys, status queries, ticks of the
  idle-eviction loop), the status of \<open>k\<close> stays ERROR, no handle is stored and \<^verbatim>\<open>load\<close> is
  not called for \<open>k\<close>. The next \<^verbatim>\<open>load_model\<close> for \<open>k\<close> calls \<^verbatim>\<open>load\<close> once more, and if that
  load succeeds, \<open>k\<close> is READY.
\<close>

theorem failed_load_marks_error:
  assumes "s = serve_all eng cfg reqs init_manager"
    and "resolve_model_name cfg i = Inr k"
    and "\<not> ready_now s k"
    and "load eng k (load_calls s k) = Inl e"
  shows "\<exists>s'. load_model eng cfg i s = (Inl (ModelLoadingFailed (EngineFailure e)), s')
          \<and> model_status s' k = Some ERROR
          \<and> \<not> is_resident s' k
          \<and> load_calls s' k = Suc (load_calls s k)
          \<and> (\<forall>later. (\<forall>r \<in> set later. request_key cfg r \<noteq> Some k) \<longrightarrow>
                (let s'' = serve_all eng cfg later s'
                 in model_status s'' k = Some ERROR
                    \<and> \<not> is_resident s'' k
                    \<and> load_calls s'' k = load_calls s' k
                    \<and> load_calls (snd (load_model eng cfg i s'')) k = Suc (load_calls s'' k)
                    \<and> (\<forall>h. load eng k (load_calls s'' k) = Inr h \<and> has_model_attr h \<longrightarrow>
                          fst (load_model eng cfg i s'') = Inr k
                          \<and> ready_now (snd (load_model eng cfg i s'')) k)))"
proof -
  have inv: "manager_inv s"
    unfolding assms(1) using manager_inv_init by (rule manager_inv_serve_all)
  then have "resident_ready s" by (simp add: manager_inv_def)
  then have nk: "\<not> is_resident s k"
    using assms(3) by (rule not_ready_not_resident)
  define s' where "s' = failed_state eng k s"
  have l: "load_model eng cfg i s = (Inl (ModelLoadingFailed (EngineFailure e)), s')"
    unfolding s'_def using assms(2,3,4) by (rule load_model_fails)
  have slot: "slot_is k (Some ERROR) (Suc (load_calls s k)) s'"
    unfolding s'_def using nk by (rule slot_is_failed_state)
  have later: "let s'' = serve_all eng cfg later s'
                 in model_status s'' k = Some ERROR
                    \<and> \<not> is_resident s'' k
                    \<and> load_calls s'' k = load_calls s' k
                    \<and> load_calls (snd (load_model eng cfg i s'')) k = Suc (load_calls s'' k)
                    \<and> (\<forall>h. load eng k (load_calls s'' k) = Inr h \<and> has_model_attr h \<longrightarrow>
                          fst (load_model eng cfg i s'') = Inr k
                          \<and> ready_now (snd (load_model eng cfg i s'')) k)"
    if o: "\<forall>r \<in> set later. request_key cfg r \<noteq> Some k" for later
  proof -
    define s'' where "s'' = serve_all eng cfg later s'"
    have sl: "slot_is k (Some ERROR) (Suc (load_calls s k)) s''"
      unfolding s''_def using slot o by (rule slot_is_serve_all)
    then have nr: "\<not> ready_now s'' k" by (simp add: slot_is_def ready_now_def)
    have c: "load_calls (snd (load_model eng cfg i s'')) k = Suc (load_calls s'' k)"
      using assms(2) nr by (rule load_calls_load_model_not_ready)
    have r: "fst (load_model eng cfg i s'') = Inr k
           \<and> ready_now (snd (load_model eng cfg i s'')) k"
      if "load eng k (load_calls s'' k) = Inr h" "has_model_attr h" for h
    proof -
      have e: "load_model eng cfg i s'' = (Inr k, loaded_state eng cfg k h s'')"
        using assms(2) nr that by (rule load_model_loads)
      then have "ready_now (snd (load_model eng cfg i s'')) k"
        using ready_now_load_model [OF e] by simp
      with e show ?thesis by simp
    qed
    from sl slot c r show ?thesis
      unfolding Let_def s''_def [symmetric] by (simp add: slot_is_def)
  qed
  from l slot later show ?thesis
    by (intro exI [of _ s']) (simp add: slot_is_def)
qed

theorem failed_load_marks_error_witness:
  "let k = ''mlx-community/Qwen3-Embedding-0.6B-4bit-DWQ'';
       s = serve_all flaky_engine demo_config [] init_manager
   in resolve_model_name demo_config (Some ''small'') = Inr k
      \<and> \<not> ready_now s k
      \<and> load flaky_engine k (load_calls s k) = Inl ''load failed''
      \<and> (\<exists>s'. load_model flaky_engine demo_config (Some ''small'') s
                  = (Inl (ModelLoadingFailed (EngineFailure ''load failed'')), s')
              \<and> model_status s' k = Some ERROR
              \<and> \<not> is_resident s' k
              \<and> load_calls s' k = 1
              \<and> model_status
                    (serve_all flaky_engine demo_config [Tick, Load (Some ''medium'')] s') k
                  = Some ERROR
              \<and> fst (load_model flaky_engine demo_config (Some ''small'')
                       (serve_all flaky_engine demo_config [Tick, Load (Some ''medium'')] s'))
                  = Inr k)"
proof -
  define k where "k = ''mlx-community/Qwen3-Embedding-0.6B-4bit-DWQ''"
  define s where "s = serve_all flaky_engine demo_config [] init_manager"
  define later where "later = [Tick, Load (Some ''medium'')]"
  have s0: "s = init_manager" by (simp add: s_def serve_all_def)
  have h1: "resolve_model_name demo_config (Some ''small'') = Inr k"
    unfolding k_def by (rule resolve_small)
  have h2: "\<not> ready_now s k"
    by (simp add: s0 ready_now_def is_resident_def init_manager_def)
  have h3: "load flaky_engine k (load_calls s k) = Inl ''load failed''"
    by (simp add: s0 init_manager_def flaky_engine_def)
  have o: "\<forall>r \<in> set later. request_key demo_config r \<noteq> Some k"
    by (simp add: later_def request_key_def resolve_medium k_def)
  from failed_load_marks_error [OF s_def h1 h2 h3]
  obtain s' where l: "load_model flaky_engine demo_config (Some ''small'') s
                  = (Inl (ModelLoadingFailed (EngineFailure ''load failed'')), s')"
    and a: "model_status s' k = Some ERROR" "\<not> is_resident s' k"
      "load_calls s' k = Suc (load_calls s k)"
    and f: "\<And>later. \<forall>r \<in> set later. request_key demo_config r \<noteq> Some k \<Longrightarrow>
                (let s'' = serve_all flaky_engine demo_config later s'
                 in model_status s'' k = Some ERROR
                    \<and> \<not> is_resident s'' k
                    \<and> load_calls s'' k = load_calls s' k
                    \<and> load_calls (snd (load_model flaky_engine demo_config (Some ''small'') s'')) k
                        = Suc (load_calls s'' k)
                    \<and> (\<forall>h. load flaky_engine k (load_calls s'' k) = Inr h \<and> has_model_attr h \<longrightarrow>
                          fst (load_model flaky_engine demo_config (Some ''small'') s'') = Inr k
                          \<and> ready_now (snd (load_model flaky_engine demo_config (Some ''small'') s'')) k))"
    by blast
  have c1: "load_calls s' k = 1"
    using a(3) by (simp add: s0 init_manager_def)
  define s'' where "s'' = serve_all flaky_engine demo_config later s'"
  from f [OF o] have b: "model_status s'' k = Some ERROR" "load_calls s'' k = load_calls s' k"
    and r: "\<And>h. load flaky_engine k (load_calls s'' k) = Inr h \<Longrightarrow> has_model_attr h \<Longrightarrow>
              fst (load_model flaky_engine demo_config (Some ''small'') s'') = Inr k"
    unfolding Let_def s''_def [symmetric] by blast+
  have "load flaky_engine k (load_calls s'' k) = Inr (Handle 1 True)"
    using b(2) c1 by (simp add: flaky_engine_def)
  then have g: "fst (load_model flaky_engine demo_config (Some ''small'') s'') = Inr k"
    by (rule r) simp
  from h1 h2 h3 l a(1,2) c1 b(1) g show ?thesis
    unfolding Let_def k_def [symmetric] s_def [symmetric] s''_def later_def
    by blast
qed

end
